theory Spec2Isabelle
  imports Complex_Main "HOL-Library.Multiset"
begin

section \<open>JavaScript numbers\<close>

text \<open>
  A JavaScript number is a finite double, NaN or one of the two infinities.  The finite
  doubles are idealised as reals: rounding and overflow of the floating-point operations
  and the sign of zero are not tracked.  NaN and the infinities are kept, since the
  program divides by stack tops that can be zero and tests \<open>Number.isFinite\<close>.
\<close>

datatype jsnum = Fin real | NaN | PosInf | NegInf

fun isFinite :: "jsnum \<Rightarrow> bool" where
  "isFinite (Fin a) = True"
| "isFinite NaN = False"
| "isFinite PosInf = False"
| "isFinite NegInf = False"

fun js_neg :: "jsnum \<Rightarrow> jsnum" where
  "js_neg (Fin a) = Fin (- a)"
| "js_neg NaN = NaN"
| "js_neg PosInf = NegInf"
| "js_neg NegInf = PosInf"

fun js_add :: "jsnum \<Rightarrow> jsnum \<Rightarrow> jsnum" where
  "js_add (Fin a) (Fin b) = Fin (a + b)"
| "js_add (Fin a) NaN = NaN"
| "js_add (Fin a) PosInf = PosInf"
| "js_add (Fin a) NegInf = NegInf"
| "js_add NaN b = NaN"
| "js_add PosInf (Fin b) = PosInf"
| "js_add PosInf NaN = NaN"
| "js_add PosInf PosInf = PosInf"
| "js_add PosInf NegInf = NaN"
| "js_add NegInf (Fin b) = NegInf"
| "js_add NegInf NaN = NaN"
| "js_add NegInf PosInf = NaN"
| "js_add NegInf NegInf = NegInf"

definition js_sub :: "jsnum \<Rightarrow> jsnum \<Rightarrow> jsnum" where
  "js_sub a b = js_add a (js_neg b)"

text \<open>The sign of a number: \<open>-1\<close>, \<open>0\<close>, \<open>1\<close>, or \<open>None\<close> for NaN.\<close>

fun js_sign :: "jsnum \<Rightarrow> int option" where
  "js_sign (Fin a) = Some (if a < 0 then - 1 else if a = 0 then 0 else 1)"
| "js_sign NaN = None"
| "js_sign PosInf = Some 1"
| "js_sign NegInf = Some (- 1)"

definition inf_of_sign :: "int \<Rightarrow> jsnum" where
  "inf_of_sign s = (if s < 0 then NegInf else if s = 0 then NaN else PosInf)"

fun js_mul :: "jsnum \<Rightarrow> jsnum \<Rightarrow> jsnum" where
  "js_mul (Fin a) (Fin b) = Fin (a * b)"
| "js_mul a b =
     (case (js_sign a, js_sign b) of
        (Some s, Some t) \<Rightarrow> inf_of_sign (s * t)
      | _ \<Rightarrow> NaN)"

text \<open>
  Division: a finite number divided by zero is NaN when it is zero itself and an
  infinity of its own sign otherwise (the divisor is read as \<open>+0\<close>).
\<close>

fun js_div :: "jsnum \<Rightarrow> jsnum \<Rightarrow> jsnum" where
  "js_div (Fin a) (Fin b) =
     (if b \<noteq> 0 then Fin (a / b)
      else if a = 0 then NaN else if 0 < a then PosInf else NegInf)"
| "js_div (Fin a) NaN = NaN"
| "js_div (Fin a) PosInf = Fin 0"
| "js_div (Fin a) NegInf = Fin 0"
| "js_div NaN b = NaN"
| "js_div PosInf (Fin b) = (if b < 0 then NegInf else PosInf)"
| "js_div PosInf b = NaN"
| "js_div NegInf (Fin b) = (if b < 0 then PosInf else NegInf)"
| "js_div NegInf b = NaN"

fun js_lt :: "jsnum \<Rightarrow> jsnum \<Rightarrow> bool" where
  "js_lt (Fin a) (Fin b) = (a < b)"
| "js_lt (Fin a) PosInf = True"
| "js_lt NegInf (Fin b) = True"
| "js_lt NegInf PosInf = True"
| "js_lt a b = False"

definition js_gt :: "jsnum \<Rightarrow> jsnum \<Rightarrow> bool" where
  "js_gt a b = js_lt b a"

fun js_le :: "jsnum \<Rightarrow> jsnum \<Rightarrow> bool" where
  "js_le (Fin a) (Fin b) = (a \<le> b)"
| "js_le (Fin a) PosInf = True"
| "js_le NegInf (Fin b) = True"
| "js_le NegInf PosInf = True"
| "js_le NegInf NegInf = True"
| "js_le PosInf PosInf = True"
| "js_le a b = False"

definition js_ge :: "jsnum \<Rightarrow> jsnum \<Rightarrow> bool" where
  "js_ge a b = js_le b a"

fun js_abs :: "jsnum \<Rightarrow> jsnum" where
  "js_abs (Fin a) = Fin \<bar>a\<bar>"
| "js_abs NaN = NaN"
| "js_abs PosInf = PosInf"
| "js_abs NegInf = PosInf"

text \<open>\<open>Math.max\<close> and \<open>Math.min\<close> of two numbers: NaN as soon as one of them is.\<close>

definition Math_max :: "jsnum \<Rightarrow> jsnum \<Rightarrow> jsnum" where
  "Math_max a b = (if a = NaN \<or> b = NaN then NaN else if js_lt a b then b else a)"

definition Math_min :: "jsnum \<Rightarrow> jsnum \<Rightarrow> jsnum" where
  "Math_min a b = (if a = NaN \<or> b = NaN then NaN else if js_lt b a then b else a)"

text \<open>A number is truthy unless it is zero or NaN.\<close>

definition truthy :: "jsnum \<Rightarrow> bool" where
  "truthy a = (a \<noteq> Fin 0 \<and> a \<noteq> NaN)"

section \<open>The chart object\<close>

text \<open>
  A cell of a raw row, as the host delivers it.  A JavaScript string is a sequence of
  UTF-16 code units; one \<open>char\<close> of the model stands for one code unit.
\<close>

datatype elemId = NoElem | Elem int | ElemPair int int

record cell =
  qElemNumber :: int
  qNum :: jsnum
  qText :: string

text \<open>
  A point of \<open>g.flatData\<close>, a group of \<open>g.data\<close> (the one-dimensional path builds groups
  with no \<open>values\<close> field: \<open>None\<close>) and a record of \<open>g.deltas\<close>.
\<close>

record keyed =
  dim1 :: string

record point = keyed +
  dim2 :: string
  p_qNum :: jsnum
  p_qText :: string
  qTextPct :: string
  p_qElemNumber :: elemId
  offset :: jsnum

record group = keyed +
  offsetPos :: jsnum
  offsetNeg :: jsnum
  "values" :: "point list option"

record delta =
  dim1p :: string
  dim1c :: string
  d_dim2 :: string
  delta :: jsnum
  deltaPct :: jsnum
  points :: "jsnum list"

datatype orientation = ORIENTATION_HORIZONTAL | ORIENTATION_VERTICAL

text \<open>
  The chart object \<open>g\<close> (\<open>this\<close> of every method).  The d3 scales and the text element
  \<open>g.tref\<close> used for measuring are external: \<open>mScale\<close>, \<open>dScale\<close> and \<open>rangeBand\<close>
  stand for the two scales, \<open>bboxHeight\<close>, \<open>bboxWidth\<close> and \<open>textLength\<close> for
  \<open>getBBox()\<close> and \<open>getComputedTextLength()\<close> of \<open>g.tref\<close> holding a given text, and
  \<open>formatPct\<close> for \<open>d3.format(".1%")\<close>.
\<close>

record chart =
  rawData :: "cell list list"
  defDims :: nat
  defMeas :: nat
  measures :: "string list"
  normalized :: bool
  showDeltas :: bool
  nDims :: nat
  data :: "group list"
  flatData :: "point list"
  allDim2 :: "string list"
  deltas :: "delta list"
  gridHeight :: jsnum
  barGap :: jsnum
  orientation :: orientation
  rotateLabel :: bool
  hAlign :: string
  vAlign :: string
  innerBarPadV :: jsnum
  innerBarPadH :: jsnum
  textDots :: bool
  showTot :: string
  showDim :: string
  mScale :: "jsnum \<Rightarrow> jsnum"
  dScale :: "string \<Rightarrow> jsnum"
  rangeBand :: jsnum
  bboxHeight :: "string \<Rightarrow> jsnum"
  bboxWidth :: "string \<Rightarrow> jsnum"
  textLength :: "string \<Rightarrow> jsnum"
  formatPct :: "jsnum \<Rightarrow> string"

section \<open>Text on bars\<close>

datatype labelType = TYPE_INSIDE_BARS | TYPE_TOTAL_POS | TYPE_TOTAL_NEG

text \<open>
  The object \<open>barText\<close> receives: a point of \<open>g.flatData\<close>, or a group of \<open>g.data\<close> on
  which \<open>updateBars\<close> has set \<open>qNum\<close> and \<open>qText\<close>.  A numeric field the object lacks
  reads \<open>undefined\<close>, which behaves as NaN in arithmetic and comparisons; a missing text
  is shown as the empty text.
\<close>

datatype datum = Bar point | Total group jsnum string

fun datum_qNum :: "datum \<Rightarrow> jsnum" where
  "datum_qNum (Bar e) = p_qNum e"
| "datum_qNum (Total d n t) = n"

fun datum_qText :: "datum \<Rightarrow> string" where
  "datum_qText (Bar e) = p_qText e"
| "datum_qText (Total d n t) = t"

fun datum_qTextPct :: "datum \<Rightarrow> string" where
  "datum_qTextPct (Bar e) = qTextPct e"
| "datum_qTextPct (Total d n t) = []"

fun datum_dim1 :: "datum \<Rightarrow> string" where
  "datum_dim1 (Bar e) = dim1 e"
| "datum_dim1 (Total d n t) = dim1 d"

fun datum_dim2 :: "datum \<Rightarrow> string" where
  "datum_dim2 (Bar e) = dim2 e"
| "datum_dim2 (Total d n t) = []"

fun datum_offset :: "datum \<Rightarrow> jsnum" where
  "datum_offset (Bar e) = offset e"
| "datum_offset (Total d n t) = NaN"

fun datum_offsetPos :: "datum \<Rightarrow> jsnum" where
  "datum_offsetPos (Bar e) = NaN"
| "datum_offsetPos (Total d n t) = offsetPos d"

fun datum_offsetNeg :: "datum \<Rightarrow> jsnum" where
  "datum_offsetNeg (Bar e) = NaN"
| "datum_offsetNeg (Total d n t) = offsetNeg d"

text \<open>\<open>getBarLabelText\<close> of barLabelText.js.\<close>

definition getBarLabelText :: "datum \<Rightarrow> chart \<Rightarrow> bool \<Rightarrow> string" where
  "getBarLabelText d component isTotal =
     (if datum_qNum d = Fin 0 then []
      else if isTotal then (if showTot component = ''D'' then datum_dim1 d else datum_qText d)
      else if showDim component = ''D''
        then (if defDims component > 1 then datum_dim2 d else datum_dim1 d)
      else if showDim component = ''P'' \<and> normalized component then datum_qTextPct d
      else datum_qText d)"

text \<open>
  The ellipsis glyph U+2026 is one code unit; the model takes one \<open>char\<close> for it.  Only
  that it is a single unit, distinct from the dot and the dash, matters below.
\<close>

definition ellipsis :: char where
  "ellipsis = CHR 0x85"

text \<open>The inner loop of \<open>ellipseText\<close>: drop trailing dots and dashes.\<close>

function stripDots :: "string \<Rightarrow> string" where
  "stripDots tx =
     (if tx \<noteq> [] \<and> (last tx = CHR ''.'' \<or> last tx = CHR ''-'')
      then stripDots (butlast tx) else tx)"
  by pat_completeness auto
termination
  by (relation "measure length") auto

declare stripDots.simps [simp del]

lemma length_stripDots: "length (stripDots tx) \<le> length tx"
proof (induction tx rule: stripDots.induct)
  case (1 tx)
  show ?case
  proof (cases "tx \<noteq> [] \<and> (last tx = CHR ''.'' \<or> last tx = CHR ''-'')")
    case True
    with 1 have "length (stripDots (butlast tx)) \<le> length (butlast tx)" by blast
    with True show ?thesis by (subst stripDots.simps) simp
  next
    case False
    then show ?thesis by (subst stripDots.simps) auto
  qed
qed

text \<open>
  The outer loop of \<open>ellipseText\<close>.  Its state is the local \<open>tx\<close> and the text held by
  \<open>g.tref\<close>; the local \<open>textLength\<close> is always the measured length of the latter.
\<close>

function ellipseLoop :: "(string \<Rightarrow> jsnum) \<Rightarrow> jsnum \<Rightarrow> string \<Rightarrow> string \<Rightarrow> string \<times> string" where
  "ellipseLoop len maxLength tx tref =
     (if js_gt (len tref) maxLength \<and> tx \<noteq> []
      then ellipseLoop len maxLength (stripDots (butlast tx)) (stripDots (butlast tx) @ [ellipsis])
      else (tx, tref))"
  by pat_completeness auto
termination
proof (relation "measure (\<lambda>(len, maxLength, tx, tref). length tx)")
  show "wf (measure (\<lambda>(len, maxLength, tx, tref). length tx))" by simp
next
  fix len :: "string \<Rightarrow> jsnum" and maxLength :: jsnum and tx tref :: string
  assume "js_gt (len tref) maxLength \<and> tx \<noteq> []"
  then have "length (butlast tx) < length tx" by simp
  moreover have "length (stripDots (butlast tx)) \<le> length (butlast tx)"
    by (rule length_stripDots)
  ultimately show "((len, maxLength, stripDots (butlast tx), stripDots (butlast tx) @ [ellipsis]),
      (len, maxLength, tx, tref)) \<in> measure (\<lambda>(len, maxLength, tx, tref). length tx)"
    by simp
qed

declare ellipseLoop.simps [simp del]

definition ellipseText :: "(string \<Rightarrow> jsnum) \<Rightarrow> string \<Rightarrow> jsnum \<Rightarrow> string" where
  "ellipseText len label maxLength =
     (case ellipseLoop len maxLength label label of
        (tx, tref) \<Rightarrow> if tx \<noteq> [] then tref else tx)"

text \<open>
  The choice between truncation and suppression at the end of \<open>barText\<close>
  (\<open>if (g.textDots) ... else ...\<close>): the text shown for a label, given the text measure,
  the room \<open>maxLength\<close> and whether an ellipsis is allowed.
\<close>

definition fitText :: "(string \<Rightarrow> jsnum) \<Rightarrow> string \<Rightarrow> jsnum \<Rightarrow> bool \<Rightarrow> string" where
  "fitText len label maxLength allowEllipsis =
     (if allowEllipsis then ellipseText len label maxLength
      else if js_gt (len label) maxLength then [] else label)"

record bar_text =
  bt_x :: jsnum
  bt_y :: jsnum
  bt_text :: string
  bt_rotation :: bool

definition two :: jsnum where
  "two = Fin 2"

text \<open>
  \<open>barText\<close>.  The locals \<open>top\<close> and \<open>left\<close> are \<open>tp\<close> and \<open>lf\<close>; \<open>enough\<close> is the test
  that the bar has room for the height of the characters, inside which alone the text
  is computed.
\<close>

definition barText :: "chart \<Rightarrow> datum \<Rightarrow> labelType \<Rightarrow> bar_text" where
  "barText g d type =
    (let rotation = (type = TYPE_INSIDE_BARS \<and> rotateLabel g \<and> orientation g = ORIENTATION_VERTICAL);
         vertical = (orientation g = ORIENTATION_VERTICAL);
         padV = innerBarPadV g;
         padH = innerBarPadH g;
         offs = (if type \<noteq> TYPE_INSIDE_BARS
                 then (if type = TYPE_TOTAL_POS then datum_offsetPos d else datum_offsetNeg d)
                 else datum_offset d);
         vAl = (if type \<noteq> TYPE_INSIDE_BARS \<and> vertical then ''B'' else vAlign g);
         hAl = (if type \<noteq> TYPE_INSIDE_BARS \<and> \<not> vertical then ''L'' else hAlign g);
         label = getBarLabelText d g (type \<noteq> TYPE_INSIDE_BARS);
         boxH = bboxHeight g label;
         boxW = bboxWidth g label;
         extent = js_abs (js_sub (mScale g (Fin 0)) (mScale g (datum_qNum d)));
         barHeight = (if vertical then extent else rangeBand g);
         barWidth = (if vertical then rangeBand g else extent);
         neg = js_lt (datum_qNum d) (Fin 0);
         tp = (if vertical
               then (if type = TYPE_TOTAL_NEG
                     then js_add (js_add (mScale g (js_sub offs (datum_qNum d))) boxH) (js_mul two padV)
                     else mScale g (if neg then offs else js_add offs (datum_qNum d)))
               else dScale g (datum_dim1 d));
         lf = (if vertical then dScale g (datum_dim1 d)
               else (if type = TYPE_TOTAL_NEG
                     then js_sub (js_sub (mScale g offs) boxW) (js_mul two padH)
                     else mScale g (if neg then js_add offs (datum_qNum d) else offs)));
         enough = ((rotation \<and> js_le (js_add boxH (js_mul two padH)) barWidth)
                   \<or> (\<not> rotation \<and> js_le (js_add boxH (js_mul two padV)) barHeight));
         textWidth = (if rotation then boxH else boxW);
         textY = (if enough \<and> vAl = ''C'' then js_add tp (js_div (js_add barHeight boxH) two)
                  else if enough \<and> vAl = ''B'' then js_sub (js_add tp barHeight) padV
                  else js_add (js_add tp boxH) padV);
         textX = (if enough \<and> js_le (js_add textWidth (js_mul two padH)) barWidth \<and> hAl = ''C''
                    then js_add lf (js_div (js_sub barWidth textWidth) two)
                  else if enough \<and> js_le (js_add textWidth (js_mul two padH)) barWidth \<and> hAl = ''R''
                    then js_sub (js_sub (js_add lf barWidth) textWidth) padH
                  else js_add lf padH);
         maxLength = (if type = TYPE_INSIDE_BARS
                      then (if rotation then js_sub barHeight (js_mul two padV)
                            else js_sub barWidth (js_mul two padH))
                      else barWidth);
         tx = (if enough then fitText (textLength g) label maxLength (textDots g) else []);
         tx' = (if barGap g = Fin 1 then [] else tx)
     in \<lparr> bt_x = (if isFinite textX then textX else Fin 0),
          bt_y = (if isFinite textY then textY else Fin 0),
          bt_text = tx',
          bt_rotation = rotation \<rparr>)"

section \<open>The numeric scale domain\<close>

text \<open>
  \<open>d3.max(array, f)\<close> and \<open>d3.min(array, f)\<close> of d3 version 3 (an external library),
  applied to the list of the accessor's values: the first value that compares to itself
  (so not NaN) starts the sweep and every later value beyond the current one replaces it;
  the result is \<open>undefined\<close> (\<open>None\<close>) when there is no such value.
\<close>

fun d3_max_from :: "jsnum \<Rightarrow> jsnum list \<Rightarrow> jsnum" where
  "d3_max_from a [] = a"
| "d3_max_from a (b # bs) = d3_max_from (if js_gt b a then b else a) bs"

fun d3_max :: "jsnum list \<Rightarrow> jsnum option" where
  "d3_max [] = None"
| "d3_max (b # bs) = (if js_ge b b then Some (d3_max_from b bs) else d3_max bs)"

fun d3_min_from :: "jsnum \<Rightarrow> jsnum list \<Rightarrow> jsnum" where
  "d3_min_from a [] = a"
| "d3_min_from a (b # bs) = d3_min_from (if js_lt b a then b else a) bs"

fun d3_min :: "jsnum list \<Rightarrow> jsnum option" where
  "d3_min [] = None"
| "d3_min (b # bs) = (if js_ge b b then Some (d3_min_from b bs) else d3_min bs)"

text \<open>
  The part of \<open>initChart\<close> that computes \<open>g.max\<close> and \<open>g.min\<close>, the domain handed to the
  linear scale before \<open>nice()\<close>.  \<open>pointsOf\<close> reads \<open>d.values\<close> under the guard
  \<open>if (d.values)\<close>.
\<close>

definition pointsOf :: "group \<Rightarrow> point list" where
  "pointsOf d = (case values d of None \<Rightarrow> [] | Some vs \<Rightarrow> vs)"

definition maxOffset :: "group \<Rightarrow> jsnum" where
  "maxOffset d =
     fold (\<lambda>dataObject m. if js_gt (offset dataObject) m then offset dataObject else m)
       (pointsOf d) (Math_max (Fin 0) (offsetPos d))"

definition minOffset :: "group \<Rightarrow> jsnum" where
  "minOffset d =
     fold (\<lambda>dataObject m. if js_lt (offset dataObject) m then offset dataObject else m)
       (pointsOf d) (Math_min (Fin 0) (offsetNeg d))"

definition initChart_max :: "chart \<Rightarrow> jsnum option" where
  "initChart_max g =
     d3_max (map (\<lambda>d. if normalized g
                        then (if truthy (offsetPos d) \<and> js_gt (offsetPos d) (Fin 0)
                              then gridHeight g else Fin 0)
                        else js_mul (maxOffset d) (gridHeight g)) (data g))"

definition initChart_min :: "chart \<Rightarrow> jsnum option" where
  "initChart_min g =
     d3_min (map (\<lambda>d. if normalized g
                        then (if truthy (offsetNeg d) \<and> js_lt (offsetNeg d) (Fin 0)
                              then js_neg (gridHeight g) else Fin 0)
                        else js_mul (minOffset d) (gridHeight g)) (data g))"

text \<open>
  The vocabulary of the domain property: the real value of a finite number, groups whose
  stack tops and point offsets are all finite, and the highest and lowest of zero, the
  stack top and every point offset of a group.
\<close>

fun toReal :: "jsnum \<Rightarrow> real" where
  "toReal (Fin a) = a"
| "toReal NaN = 0"
| "toReal PosInf = 0"
| "toReal NegInf = 0"

definition finiteGroup :: "group \<Rightarrow> bool" where
  "finiteGroup d =
     (isFinite (offsetPos d) \<and> isFinite (offsetNeg d) \<and> list_all (\<lambda>e. isFinite (offset e)) (pointsOf d))"

definition highest :: "group \<Rightarrow> real" where
  "highest d = Max (insert 0 (insert (toReal (offsetPos d)) ((\<lambda>e. toReal (offset e)) ` set (pointsOf d))))"

definition lowest :: "group \<Rightarrow> real" where
  "lowest d = Min (insert 0 (insert (toReal (offsetNeg d)) ((\<lambda>e. toReal (offset e)) ` set (pointsOf d))))"

section \<open>Topological sort\<close>

datatype error = TypeError | CyclicDependency

text \<open>\<open>Array.prototype.indexOf\<close>: the first position of a value, \<open>-1\<close> when it is absent.\<close>

definition indexOf :: "'a list \<Rightarrow> 'a \<Rightarrow> int" where
  "indexOf xs x = (if x \<in> set xs then int (length (takeWhile (\<lambda>y. y \<noteq> x) xs)) else - 1)"

text \<open>
  The state of \<open>toposort\<close>: the \<open>cursor\<close>, the marks \<open>visited\<close> (an object keyed by
  node position, which is \<open>-1\<close> for a child that is not a node) and the array \<open>sorted\<close>
  (\<open>sortedArr\<close>: the name \<open>sorted\<close> is taken by the library).
  The array is filled from its last slot downwards, one slot per decrement of the cursor;
  \<open>sortedArr\<close> lists the filled slots, from slot \<open>cursor\<close> upwards.  A write below slot 0 is
  not an element of the array and is dropped.
\<close>

record 'a topo =
  cursor :: int
  sortedArr :: "'a list"
  visited :: "int set"

definition place :: "'a \<Rightarrow> 'a topo \<Rightarrow> 'a topo" where
  "place node st =
     st \<lparr> cursor := cursor st - 1,
          sortedArr := (if 0 \<le> cursor st - 1 then node # sortedArr st else sortedArr st) \<rparr>"

text \<open>
  The inner function \<open>visit\<close> and its \<open>do ... while\<close> loop over the outgoing edges, taken
  from the last to the first.  The first argument bounds the nesting depth of \<open>visit\<close>;
  \<open>None\<close> means the bound was reached.  \<open>toposort\<close> below starts with a bound that is
  never reached (\<open>toposort_returns\<close>).  It returns the filled slots of the array; when
  every edge that leaves a node arrives at a node, these are all its slots
  (\<open>toposort_sound\<close>).
\<close>

fun visit :: "nat \<Rightarrow> 'a list \<Rightarrow> ('a \<times> 'a) list \<Rightarrow> 'a topo \<Rightarrow> 'a \<Rightarrow> int \<Rightarrow> 'a list
    \<Rightarrow> (error + 'a topo) option"
  and visitChildren :: "nat \<Rightarrow> 'a list \<Rightarrow> ('a \<times> 'a) list \<Rightarrow> 'a topo \<Rightarrow> 'a list \<Rightarrow> 'a list
    \<Rightarrow> (error + 'a topo) option"
where
  "visit 0 nodes edges st node i predecessors = None"
| "visit (Suc depth) nodes edges st node i predecessors =
     (if node \<in> set predecessors then Some (Inl CyclicDependency)
      else if i \<in> visited st then Some (Inr st)
      else (case visitChildren depth nodes edges (st \<lparr> visited := insert i (visited st) \<rparr>)
                  (rev (map snd (filter (\<lambda>edge. fst edge = node) edges)))
                  (predecessors @ [node]) of
              Some (Inr st') \<Rightarrow> Some (Inr (place node st'))
            | r \<Rightarrow> r))"
| "visitChildren depth nodes edges st [] preds = Some (Inr st)"
| "visitChildren depth nodes edges st (child # rest) preds =
     (case visit depth nodes edges st child (indexOf nodes child) preds of
        Some (Inr st') \<Rightarrow> visitChildren depth nodes edges st' rest preds
      | r \<Rightarrow> r)"

text \<open>The loop \<open>while (i--)\<close> of \<open>toposort\<close> over the positions, from the last to the first.\<close>

fun visitRoots :: "nat \<Rightarrow> 'a list \<Rightarrow> ('a \<times> 'a) list \<Rightarrow> 'a topo \<Rightarrow> nat list
    \<Rightarrow> (error + 'a topo) option" where
  "visitRoots depth nodes edges st [] = Some (Inr st)"
| "visitRoots depth nodes edges st (i # is) =
     (if int i \<in> visited st then visitRoots depth nodes edges st is
      else (case visit depth nodes edges st (nodes ! i) (int i) [] of
              Some (Inr st') \<Rightarrow> visitRoots depth nodes edges st' is
            | r \<Rightarrow> r))"

definition toposort :: "'a list \<Rightarrow> ('a \<times> 'a) list \<Rightarrow> (error + 'a list) option" where
  "toposort nodes edges =
     (case visitRoots (length nodes + 2) nodes edges
             \<lparr> cursor = int (length nodes), sortedArr = [], visited = {} \<rparr>
             (rev [0..<length nodes]) of
        Some (Inr st) \<Rightarrow> Some (Inr (sortedArr st))
      | Some (Inl e) \<Rightarrow> Some (Inl e)
      | None \<Rightarrow> None)"

section \<open>Shaping the data\<close>

text \<open>
  A row of \<open>inData\<close>: the rows built for several measures hold \<open>g.rawData[i][j]\<close>, which
  is \<open>undefined\<close> (\<open>None\<close>) when the raw row is too short.  Reading a property of a cell
  that is \<open>undefined\<close> or beyond the end of the row throws a TypeError.
\<close>

type_synonym row = "cell option list"

definition cellAt :: "row \<Rightarrow> nat \<Rightarrow> error + cell" where
  "cellAt d i =
     (if i < length d then (case d ! i of Some c \<Rightarrow> Inr c | None \<Rightarrow> Inl TypeError)
      else Inl TypeError)"

definition rawAt :: "cell list \<Rightarrow> nat \<Rightarrow> cell option" where
  "rawAt r j = (if j < length r then Some (r ! j) else None)"

definition measureCell :: "chart \<Rightarrow> nat \<Rightarrow> cell" where
  "measureCell g j = \<lparr> qElemNumber = - 1, qNum = Fin (real (j + 1)), qText = measures g ! j \<rparr>"

definition inDataOf :: "chart \<Rightarrow> row list" where
  "inDataOf g =
     (if defDims g = 0
      then concat (map (\<lambda>r. map (\<lambda>j. [Some (measureCell g j), rawAt r j])
                                [0..<length (measures g)]) (rawData g))
      else if defDims g = 1 \<and> defMeas g > 1
      then concat (map (\<lambda>r. map (\<lambda>j. [rawAt r 0, Some (measureCell g j), rawAt r (j + 1)])
                                [0..<length (measures g)]) (rawData g))
      else map (map Some) (rawData g))"

text \<open>\<open>if (xs.indexOf(x) == -1) xs.push(x)\<close>.\<close>

definition pushNew :: "'a list \<Rightarrow> 'a \<Rightarrow> 'a list" where
  "pushNew xs x = (if x \<in> set xs then xs else xs @ [x])"

subsection \<open>One dimension\<close>

fun initData1 :: "row list \<Rightarrow> group list \<Rightarrow> point list \<Rightarrow> string list
    \<Rightarrow> error + group list \<times> point list \<times> string list" where
  "initData1 [] struc flat q = Inr (struc, flat, q)"
| "initData1 (d # ds) struc flat q =
     (case cellAt d 1 of
        Inl e \<Rightarrow> Inl e
      | Inr c1 \<Rightarrow>
          (case cellAt d 0 of
             Inl e \<Rightarrow> Inl e
           | Inr c0 \<Rightarrow>
               initData1 ds
                 (struc @ [\<lparr> dim1 = qText c0,
                              offsetPos = (if js_lt (qNum c1) (Fin 0) then Fin 0 else qNum c1),
                              offsetNeg = (if js_lt (qNum c1) (Fin 0) then qNum c1 else Fin 0),
                              values = None \<rparr>])
                 (flat @ [\<lparr> dim1 = qText c0, dim2 = qText c0, p_qNum = qNum c1,
                             p_qText = qText c1, qTextPct = [],
                             p_qElemNumber = Elem (qElemNumber c0), offset = Fin 0 \<rparr>])
                 (pushNew q (qText c0))))"

subsection \<open>Two dimensions: the orders of the two dimensions and the edges\<close>

text \<open>
  The first pass over the rows: \<open>p\<close> and \<open>q\<close> collect the texts of the first and the
  second dimension in the order of their first occurrence, \<open>p1\<close> and \<open>p2\<close> hold the first
  dimension text and the second dimension text of the previous row (\<open>p2\<close> starts
  \<open>undefined\<close>), and an edge is recorded, once, from the previous second dimension text
  to the current one when the first dimension text did not change.
\<close>

record scan =
  sc_p1 :: string
  sc_p2 :: "string option"
  sc_edges :: "(string option \<times> string) list"
  sc_p :: "string list"
  sc_q :: "string list"

definition scanStep :: "scan \<Rightarrow> string \<Rightarrow> string \<Rightarrow> scan" where
  "scanStep s k1 c2 =
     \<lparr> sc_p1 = k1,
       sc_p2 = Some c2,
       sc_edges = (if k1 \<noteq> sc_p1 s then sc_edges s
                   else if (sc_p2 s, c2) \<in> set (sc_edges s) then sc_edges s
                   else sc_edges s @ [(sc_p2 s, c2)]),
       sc_p = pushNew (sc_p s) k1,
       sc_q = pushNew (sc_q s) c2 \<rparr>"

fun scanRows :: "scan \<Rightarrow> row list \<Rightarrow> error + scan" where
  "scanRows s [] = Inr s"
| "scanRows s (d # ds) =
     (case cellAt d 1 of
        Inl e \<Rightarrow> Inl e
      | Inr c1 \<Rightarrow>
          (case cellAt d 0 of
             Inl e \<Rightarrow> Inl e
           | Inr c0 \<Rightarrow> scanRows (scanStep s (qText c0) (qText c1)) ds))"

definition scanStart :: scan where
  "scanStart = \<lparr> sc_p1 = [], sc_p2 = None, sc_edges = [], sc_p = [], sc_q = [] \<rparr>"

text \<open>
  The edges as \<open>toposort\<close> sees them: it follows an edge only when its source is
  identical to a node, and the nodes are texts, so the edge whose source is \<open>undefined\<close>
  is never followed.
\<close>

definition textEdges :: "(string option \<times> string) list \<Rightarrow> (string \<times> string) list" where
  "textEdges es = concat (map (\<lambda>e. case fst e of None \<Rightarrow> [] | Some a \<Rightarrow> [(a, snd e)]) es)"

text \<open>
  The \<open>try ... catch\<close> around \<open>toposort\<close>: the sorted order, or the order of first
  occurrence when \<open>toposort\<close> throws.
\<close>

definition seriesOrder :: "scan \<Rightarrow> string list option" where
  "seriesOrder s =
     (case toposort (sc_q s) (textEdges (sc_edges s)) of
        None \<Rightarrow> None
      | Some (Inl err) \<Rightarrow> Some (sc_q s)
      | Some (Inr qs) \<Rightarrow> Some qs)"

subsection \<open>Two dimensions: nesting\<close>

text \<open>
  \<open>d3.nest().key(...).key(...).entries(inData)\<close> of d3 version 3 (an external library)
  groups the rows by the text of their first cell and, inside a group, by the text of
  their second cell; the rows of one leaf keep their order.  The order in which d3 lists
  the groups is the enumeration order of its internal map; the model lists them by first
  occurrence.  The two sorts that follow put the groups in the order of \<open>p\<close> and the
  leaves in the order of \<open>q\<close>, whatever order they had, since the keys of one level are
  distinct.
\<close>

definition keyText :: "nat \<Rightarrow> row \<Rightarrow> string" where
  "keyText i d = (case cellAt d i of Inr c \<Rightarrow> qText c | Inl e \<Rightarrow> [])"

definition nest :: "(row \<Rightarrow> string) \<Rightarrow> row list \<Rightarrow> (string \<times> row list) list" where
  "nest f rows = map (\<lambda>k. (k, filter (\<lambda>d. f d = k) rows)) (foldl pushNew [] (map f rows))"

definition nested :: "string list \<Rightarrow> string list \<Rightarrow> row list \<Rightarrow> (string \<times> (string \<times> row list) list) list" where
  "nested p q rows =
     sort_key (\<lambda>a. indexOf p (fst a))
       (map (\<lambda>d. (fst d, sort_key (\<lambda>a. indexOf q (fst a)) (nest (keyText 1) (snd d))))
          (nest (keyText 0) rows))"

subsection \<open>Two dimensions: stacking\<close>

text \<open>
  The loop over the canonical order \<open>q\<close> inside one group.  The leaves still to be taken
  are \<open>d.values\<close> from position \<open>j\<close> on.  A series with no leaf at the head of them
  assigns the locals \<open>num\<close>, \<open>txt\<close> and \<open>elm\<close> and pushes nothing.  The pushed point has
  no \<open>dim1\<close> and no \<open>qTextPct\<close> yet (empty texts here).
\<close>

fun stack :: "nat \<Rightarrow> string list \<Rightarrow> (string \<times> row list) list \<Rightarrow> jsnum \<Rightarrow> jsnum \<Rightarrow> point list
    \<Rightarrow> error + jsnum \<times> jsnum \<times> point list" where
  "stack dims [] leaves posT negT v = Inr (posT, negT, v)"
| "stack dims (qi # qs) [] posT negT v = stack dims qs [] posT negT v"
| "stack dims (qi # qs) (leaf # rest) posT negT v =
     (if fst leaf \<noteq> qi then stack dims qs (leaf # rest) posT negT v
      else (case snd leaf of
              [] \<Rightarrow> Inl TypeError
            | r # rs \<Rightarrow>
               (case cellAt r 2 of
                  Inl e \<Rightarrow> Inl e
                | Inr c2 \<Rightarrow>
                   (case cellAt r 0 of
                      Inl e \<Rightarrow> Inl e
                    | Inr c0 \<Rightarrow>
                       (case (if dims = 2 then cellAt r 1 else Inr c0) of
                          Inl e \<Rightarrow> Inl e
                        | Inr c1 \<Rightarrow>
                           (let num = (if isFinite (qNum c2) then qNum c2 else Fin 0);
                                elm = (if dims = 2 then ElemPair (qElemNumber c0) (qElemNumber c1)
                                       else Elem (qElemNumber c0));
                                t = (if js_lt num (Fin 0) then negT else posT)
                            in stack dims qs rest
                                 (if js_lt num (Fin 0) then posT else js_add posT num)
                                 (if js_lt num (Fin 0) then js_add negT num else negT)
                                 (v @ [\<lparr> dim1 = [], dim2 = qi, p_qNum = num, p_qText = qText c2,
                                          qTextPct = [], p_qElemNumber = elm, offset = t \<rparr>])))))))"

text \<open>The loop \<open>v.forEach\<close> that completes the points of a group.\<close>

definition finishPoint :: "chart \<Rightarrow> string \<Rightarrow> jsnum \<Rightarrow> jsnum \<Rightarrow> point \<Rightarrow> point" where
  "finishPoint g k posT negT e =
     (if normalized g
      then (let n = (if js_lt (p_qNum e) (Fin 0) then js_neg negT else posT)
            in e \<lparr> dim1 := k, offset := js_div (offset e) n, p_qNum := js_div (p_qNum e) n,
                   qTextPct := formatPct g (js_div (p_qNum e) n) \<rparr>)
      else e \<lparr> dim1 := k \<rparr>)"

text \<open>
  The delta records between the previous group's values \<open>p\<close> and the current group's
  values \<open>c\<close>: the loop over \<open>k < p.length\<close> with its test \<open>p[k] && c[k]\<close>.
\<close>

definition mkDelta :: "point \<Rightarrow> point \<Rightarrow> delta" where
  "mkDelta pk ck =
     \<lparr> dim1p = dim1 pk, dim1c = dim1 ck, d_dim2 = dim2 pk,
       delta = js_sub (p_qNum ck) (p_qNum pk), deltaPct = Fin 0,
       points = [offset pk, offset ck, p_qNum pk, p_qNum ck] \<rparr>"

definition pairDeltas :: "point list \<Rightarrow> point list \<Rightarrow> delta list" where
  "pairDeltas p c =
     concat (map (\<lambda>k. if k < length c then [mkDelta (p ! k) (c ! k)] else []) [0..<length p])"

text \<open>
  The loop \<open>n.forEach\<close> over the groups.  \<open>struc\<close> holds one group for each earlier
  iteration, so \<open>idx > 0\<close> means that it is not empty and \<open>struc[idx - 1]\<close> is its last
  element.
\<close>

fun buildGroups :: "chart \<Rightarrow> string list \<Rightarrow> (string \<times> (string \<times> row list) list) list
    \<Rightarrow> group list \<Rightarrow> point list \<Rightarrow> delta list
    \<Rightarrow> error + group list \<times> point list \<times> delta list" where
  "buildGroups g q [] struc flat dl = Inr (struc, flat, dl)"
| "buildGroups g q (d # ds) struc flat dl =
     (case stack (defDims g) q (snd d) (Fin 0) (Fin 0) [] of
        Inl e \<Rightarrow> Inl e
      | Inr (posT, negT, v0) \<Rightarrow>
          (let v = map (finishPoint g (fst d) posT negT) v0
           in buildGroups g q ds
                (struc @ [\<lparr> dim1 = fst d, offsetPos = posT, offsetNeg = negT, values = Some v \<rparr>])
                (flat @ v)
                (if struc \<noteq> [] \<and> showDeltas g
                 then dl @ pairDeltas (case values (last struc) of Some pv \<Rightarrow> pv | None \<Rightarrow> []) v
                 else dl)))"

definition initData2 :: "chart \<Rightarrow> row list \<Rightarrow> (error + chart) option" where
  "initData2 g inData =
     (case scanRows scanStart inData of
        Inl e \<Rightarrow> Some (Inl e)
      | Inr s \<Rightarrow>
          (case seriesOrder s of
             None \<Rightarrow> None
           | Some q \<Rightarrow>
               (case buildGroups g q (nested (sc_p s) q inData) [] [] [] of
                  Inl e \<Rightarrow> Some (Inl e)
                | Inr (struc, flat, dl) \<Rightarrow>
                    Some (Inr (g \<lparr> nDims := 2, data := struc, flatData := flat,
                                   allDim2 := q, deltas := dl \<rparr>)))))"

subsection \<open>\<open>initData\<close>\<close>

text \<open>
  \<open>initData\<close> changes the chart object in place; the model returns the changed object,
  \<open>Inl\<close> when the method throws.  The colour list \<open>g.allCol2\<close> is left out.  The two early
  exits return with the object untouched.
\<close>

definition initData :: "chart \<Rightarrow> (error + chart) option" where
  "initData g =
     (case rawData g of
        [] \<Rightarrow> Some (Inr g)
      | r0 # rs \<Rightarrow>
          if defDims g + defMeas g \<noteq> length r0 then Some (Inr g)
          else (case inDataOf g of
                  [] \<Rightarrow> Some (Inl TypeError)
                | d0 # ds \<Rightarrow>
                    if length d0 = 2
                    then (case initData1 (inDataOf g) [] [] [] of
                            Inl e \<Rightarrow> Some (Inl e)
                          | Inr (struc, flat, q) \<Rightarrow>
                              Some (Inr (g \<lparr> nDims := 1, normalized := False, data := struc,
                                             flatData := flat, allDim2 := q \<rparr>)))
                    else initData2 g (inDataOf g)))"

section \<open>Vocabulary for the properties of the topological sort\<close>

text \<open>
  The positions not yet marked, among \<open>-1\<close> and the positions of the nodes: the measure
  that bounds the nesting depth of \<open>visit\<close>.
\<close>

definition unvisited :: "'a list \<Rightarrow> 'a topo \<Rightarrow> nat" where
  "unvisited nodes st = card ({- 1..<int (length nodes)} - visited st)"

text \<open>
  A list is closed when every edge that leaves one of its elements arrives at an element
  further down the list.  \<open>closedEdges\<close>: an edge that leaves a node arrives at a node.
  \<open>topoInv\<close> is the invariant of \<open>visit\<close>: the marked positions are positions of nodes,
  the nodes at the marked positions are the sorted ones together with the predecessors,
  the cursor is the number of free slots, and the sorted list is closed.
\<close>

fun closedList :: "('a \<times> 'a) list \<Rightarrow> 'a list \<Rightarrow> bool" where
  "closedList edges [] = True"
| "closedList edges (a # S) = ((\<forall>e\<in>set edges. fst e = a \<longrightarrow> snd e \<in> set S) \<and> closedList edges S)"

definition closedEdges :: "'a list \<Rightarrow> ('a \<times> 'a) list \<Rightarrow> bool" where
  "closedEdges nodes edges = (\<forall>e\<in>set edges. fst e \<in> set nodes \<longrightarrow> snd e \<in> set nodes)"

definition topoInv :: "'a list \<Rightarrow> ('a \<times> 'a) list \<Rightarrow> 'a topo \<Rightarrow> 'a list \<Rightarrow> bool" where
  "topoInv nodes edges st preds =
     (visited st \<subseteq> {0..<int (length nodes)}
      \<and> image_mset (\<lambda>j. nodes ! nat j) (mset_set (visited st)) = mset (sortedArr st) + mset preds
      \<and> cursor st = int (length nodes) - int (length (sortedArr st))
      \<and> closedList edges (sortedArr st))"

text \<open>
  \<open>edgePath\<close>: every element of the list has an edge to the next.  \<open>edgesWithin\<close>: both
  endpoints of every edge are nodes.  \<open>inOrder\<close>: for every edge, each occurrence of its
  source in the list is followed, later in the list, by an occurrence of its target.
\<close>

fun edgePath :: "('a \<times> 'a) list \<Rightarrow> 'a list \<Rightarrow> bool" where
  "edgePath edges [] = True"
| "edgePath edges [x] = True"
| "edgePath edges (x # y # zs) = ((x, y) \<in> set edges \<and> edgePath edges (y # zs))"

definition edgesWithin :: "'a list \<Rightarrow> ('a \<times> 'a) list \<Rightarrow> bool" where
  "edgesWithin nodes edges = (\<forall>e\<in>set edges. fst e \<in> set nodes \<and> snd e \<in> set nodes)"

definition inOrder :: "('a \<times> 'a) list \<Rightarrow> 'a list \<Rightarrow> bool" where
  "inOrder edges S =
     (\<forall>e\<in>set edges. \<forall>i<length S. S ! i = fst e \<longrightarrow> (\<exists>j. i < j \<and> j < length S \<and> S ! j = snd e))"

section \<open>Vocabulary for the properties of the data shaping\<close>

text \<open>
  A two-dimensional input: \<open>initData\<close> passes its two early exits and every row of
  \<open>inData\<close> starts with three cells, the two dimensions and the measure.
\<close>

definition threeCells :: "row \<Rightarrow> bool" where
  "threeCells d = (case d of Some c0 # Some c1 # Some c2 # rest \<Rightarrow> True | _ \<Rightarrow> False)"

definition twoDimInput :: "chart \<Rightarrow> bool" where
  "twoDimInput g =
     (rawData g \<noteq> [] \<and> defDims g + defMeas g = length (hd (rawData g))
      \<and> inDataOf g \<noteq> [] \<and> list_all threeCells (inDataOf g))"

text \<open>
  What the first pass keeps true: \<open>q\<close> has no duplicates, and the target of every edge,
  its source when it is a text, and the previous second dimension text are all in \<open>q\<close>.
\<close>

definition scanInv :: "scan \<Rightarrow> bool" where
  "scanInv s =
     (distinct (sc_q s)
      \<and> (\<forall>e\<in>set (sc_edges s). snd e \<in> set (sc_q s) \<and> (\<forall>a. fst e = Some a \<longrightarrow> a \<in> set (sc_q s)))
      \<and> (\<forall>a. sc_p2 s = Some a \<longrightarrow> a \<in> set (sc_q s)))"

text \<open>
  The stack invariant of a group.  \<open>js_sum\<close> adds numbers from the left, starting at 0,
  as the loop does.  \<open>stackedUp posT negT v\<close>: the values of the points of \<open>v\<close> that are
  \<open>>= 0\<close> add up to \<open>posT\<close>, those that are \<open>< 0\<close> add up to \<open>negT\<close>, and the offset of
  each point is the sum of the values of the earlier points of its own sign.
\<close>

definition js_sum :: "jsnum list \<Rightarrow> jsnum" where
  "js_sum xs = foldl js_add (Fin 0) xs"

definition sameSign :: "point \<Rightarrow> point \<Rightarrow> bool" where
  "sameSign a b = (js_lt (p_qNum a) (Fin 0) = js_lt (p_qNum b) (Fin 0))"

definition stackedUp :: "jsnum \<Rightarrow> jsnum \<Rightarrow> point list \<Rightarrow> bool" where
  "stackedUp posT negT v =
     (posT = js_sum (map p_qNum (filter (\<lambda>e. js_ge (p_qNum e) (Fin 0)) v))
      \<and> negT = js_sum (map p_qNum (filter (\<lambda>e. js_lt (p_qNum e) (Fin 0)) v))
      \<and> list_all (\<lambda>k. offset (v ! k) = js_sum (map p_qNum (filter (sameSign (v ! k)) (take k v))))
            [0..<length v])"

text \<open>
  A leaf that \<open>stack\<close> can read has a first row with three cells.  \<open>stacked\<close> is the
  result of the stacking loop on the leaves of a group and \<open>groupOf\<close> the group pushed
  to \<open>struc\<close> for it.
\<close>

definition leafOk :: "string \<times> row list \<Rightarrow> bool" where
  "leafOk leaf = (case snd leaf of [] \<Rightarrow> False | r # rs \<Rightarrow> threeCells r)"

definition stacked :: "nat \<Rightarrow> string list \<Rightarrow> (string \<times> row list) list \<Rightarrow> jsnum \<times> jsnum \<times> point list" where
  "stacked dims q leaves =
     (case stack dims q leaves (Fin 0) (Fin 0) [] of Inr r \<Rightarrow> r | Inl e \<Rightarrow> (Fin 0, Fin 0, []))"

definition groupOf :: "chart \<Rightarrow> string list \<Rightarrow> string \<times> (string \<times> row list) list \<Rightarrow> group" where
  "groupOf g q d =
     (case stacked (defDims g) q (snd d) of
        (posT, negT, v0) \<Rightarrow>
          \<lparr> dim1 = fst d, offsetPos = posT, offsetNeg = negT,
            values = Some (map (finishPoint g (fst d) posT negT) v0) \<rparr>)"

text \<open>
  The delta records as the specification words them: for each group after the first and
  its immediate predecessor, one record for each slot index that both groups' values
  have, made of the previous and the current point in that slot.
\<close>

definition adjacent :: "'a list \<Rightarrow> ('a \<times> 'a) list" where
  "adjacent xs = zip xs (tl xs)"

definition deltasOf :: "group list \<Rightarrow> delta list" where
  "deltasOf gs =
     concat (map (\<lambda>pc. map (\<lambda>pk. mkDelta (fst pk) (snd pk)) (zip (pointsOf (fst pc)) (pointsOf (snd pc))))
               (adjacent gs))"

text \<open>The elements of a list in the order of their first occurrence.\<close>

fun firstEncounter :: "'a list \<Rightarrow> 'a list" where
  "firstEncounter [] = []"
| "firstEncounter (x # xs) = x # filter (\<lambda>y. y \<noteq> x) (firstEncounter xs)"

text \<open>The edges of the first pass as handed to \<open>toposort\<close>.\<close>

definition observedEdges :: "chart \<Rightarrow> (string \<times> string) list" where
  "observedEdges g =
     (case scanRows scanStart (inDataOf g) of Inr s \<Rightarrow> textEdges (sc_edges s) | Inl e \<Rightarrow> [])"

text \<open>The chart object after the two-dimensional path, given the first pass and the order.\<close>

definition shaped :: "chart \<Rightarrow> scan \<Rightarrow> string list \<Rightarrow> chart" where
  "shaped g s q =
     g \<lparr> nDims := 2,
         data := map (groupOf g q) (nested (sc_p s) q (inDataOf g)),
         flatData := concat (map (\<lambda>d. pointsOf (groupOf g q d)) (nested (sc_p s) q (inDataOf g))),
         allDim2 := q,
         deltas := (if showDeltas g then deltasOf (map (groupOf g q) (nested (sc_p s) q (inDataOf g)))
                    else []) \<rparr>"

text \<open>An outline of a group: its key, its two stack tops and the series, value and
  offset of each of its points.\<close>

definition groupOutline :: "group \<Rightarrow> string \<times> jsnum \<times> jsnum \<times> (string \<times> jsnum \<times> jsnum) list" where
  "groupOutline d =
     (dim1 d, offsetPos d, offsetNeg d, map (\<lambda>e. (dim2 e, p_qNum e, offset e)) (pointsOf d))"



section \<open>Sample inputs\<close>

text \<open>A text measure that gives every code unit one pixel, and a chart configuration.\<close>

definition charWidth :: "string \<Rightarrow> jsnum" where
  "charWidth s = Fin (real (length s))"

definition sampleChart :: chart where
  "sampleChart =
     \<lparr> rawData = [], defDims = 2, defMeas = 1, measures = [], normalized = False,
       showDeltas = True, nDims = 2, data = [], flatData = [], allDim2 = [], deltas = [],
       gridHeight = Fin 1, barGap = Fin 1, orientation = ORIENTATION_VERTICAL,
       rotateLabel = False, hAlign = ''C'', vAlign = ''C'',
       innerBarPadV = Fin 2, innerBarPadH = Fin 2, textDots = True,
       showTot = ''M'', showDim = ''M'',
       mScale = (\<lambda>v. js_sub (Fin 300) (js_mul v (Fin 2))), dScale = (\<lambda>k. Fin 10),
       rangeBand = Fin 40, bboxHeight = (\<lambda>s. Fin 10), bboxWidth = charWidth,
       textLength = charWidth, formatPct = (\<lambda>v. []) \<rparr>"

definition samplePoint :: point where
  "samplePoint =
     \<lparr> dim1 = ''Q1'', dim2 = ''East'', p_qNum = Fin 100, p_qText = ''100'', qTextPct = [],
       p_qElemNumber = ElemPair 0 0, offset = Fin 0 \<rparr>"

text \<open>
  Two groups as the two-dimensional path builds them (not normalized): Q1 stacks East 100
  and West 50, Q2 has East 80 and West -20.
\<close>

definition sampleData :: "group list" where
  "sampleData =
    [\<lparr> dim1 = ''Q1'', offsetPos = Fin 150, offsetNeg = Fin 0, values = Some
        [\<lparr> dim1 = ''Q1'', dim2 = ''East'', p_qNum = Fin 100, p_qText = ''100'', qTextPct = [],
           p_qElemNumber = ElemPair 0 0, offset = Fin 0 \<rparr>,
         \<lparr> dim1 = ''Q1'', dim2 = ''West'', p_qNum = Fin 50, p_qText = ''50'', qTextPct = [],
           p_qElemNumber = ElemPair 0 1, offset = Fin 100 \<rparr>] \<rparr>,
     \<lparr> dim1 = ''Q2'', offsetPos = Fin 80, offsetNeg = Fin (- 20), values = Some
        [\<lparr> dim1 = ''Q2'', dim2 = ''East'', p_qNum = Fin 80, p_qText = ''80'', qTextPct = [],
           p_qElemNumber = ElemPair 1 0, offset = Fin 0 \<rparr>,
         \<lparr> dim1 = ''Q2'', dim2 = ''West'', p_qNum = Fin (- 20), p_qText = ''-20'', qTextPct = [],
           p_qElemNumber = ElemPair 1 1, offset = Fin 0 \<rparr>] \<rparr>]"

text \<open>
  Raw rows of two dimensions and one measure.  In \<open>rowsMissing\<close> the group Q2 has no East
  row; in \<open>rowsCycle\<close> the series A and B come in opposite orders in the two groups.
\<close>

definition dimCell :: "int \<Rightarrow> string \<Rightarrow> cell" where
  "dimCell n t = \<lparr> qElemNumber = n, qNum = NaN, qText = t \<rparr>"

definition numCell :: "real \<Rightarrow> string \<Rightarrow> cell" where
  "numCell v t = \<lparr> qElemNumber = 0, qNum = Fin v, qText = t \<rparr>"

definition rowsMissing :: "cell list list" where
  "rowsMissing =
     [[dimCell 0 ''Q1'', dimCell 0 ''East'', numCell 100 ''100''],
      [dimCell 0 ''Q1'', dimCell 1 ''West'', numCell 50 ''50''],
      [dimCell 1 ''Q2'', dimCell 1 ''West'', numCell 70 ''70'']]"

definition rowsCycle :: "cell list list" where
  "rowsCycle =
     [[dimCell 0 ''Q1'', dimCell 0 ''A'', numCell 1 ''1''],
      [dimCell 0 ''Q1'', dimCell 1 ''B'', numCell 2 ''2''],
      [dimCell 1 ''Q2'', dimCell 1 ''B'', numCell 3 ''3''],
      [dimCell 1 ''Q2'', dimCell 0 ''A'', numCell 4 ''4'']]"

definition chartMissing :: chart where
  "chartMissing = sampleChart \<lparr> rawData := rowsMissing \<rparr>"

definition chartNormalized :: chart where
  "chartNormalized = sampleChart \<lparr> rawData := rowsMissing, normalized := True \<rparr>"

definition chartCycle :: chart where
  "chartCycle = sampleChart \<lparr> rawData := rowsCycle \<rparr>"

text \<open>A chart that holds the model of an earlier delivery and receives no rows.\<close>

definition chartStale :: chart where
  "chartStale = sampleChart \<lparr> data := sampleData \<rparr>"



section \<open>Properties of the text on bars\<close>

lemma ellipseLoop_stop:
  "ellipseLoop len w t c = (t', c') \<Longrightarrow> \<not> (js_gt (len c') w \<and> t' \<noteq> [])"
proof (induction len w t c rule: ellipseLoop.induct)
  case (1 len maxLength tx tref)
  show ?case
  proof (cases "js_gt (len tref) maxLength \<and> tx \<noteq> []")
    case True
    with 1 show ?thesis by (subst (asm) (2) ellipseLoop.simps) simp
  next
    case False
    with 1(2) show ?thesis by (subst (asm) ellipseLoop.simps) auto
  qed
qed

lemma ellipseLoop_fits:
  "\<not> (js_gt (len c) w \<and> t \<noteq> []) \<Longrightarrow> ellipseLoop len w t c = (t, c)"
  by (subst ellipseLoop.simps) auto

lemma ellipseText_result:
  "ellipseText len label w = [] \<or> \<not> js_gt (len (ellipseText len label w)) w"
proof -
  obtain t' c' where l: "ellipseLoop len w label label = (t', c')"
    by (cases "ellipseLoop len w label label")
  from ellipseLoop_stop [OF l] show ?thesis
    by (auto simp: ellipseText_def l)
qed

lemma ellipseText_fits:
  "r = [] \<or> \<not> js_gt (len r) w \<Longrightarrow> ellipseText len r w = r"
  by (auto simp: ellipseText_def ellipseLoop_fits)

text \<open>
  C8.  Whatever the data point, the label type and the other text settings, \<open>barText\<close>
  returns the empty text when \<open>barGap\<close> is 1.
\<close>

theorem barText_barGap_one:
  "barGap g = Fin 1 \<Longrightarrow> bt_text (barText g d type) = []"
  by (simp add: barText_def Let_def)

text \<open>
  The sample chart has \<open>barGap = 1\<close> and shows no text on the sample bar; with a gap of
  one half the same bar is labelled with its measure text.
\<close>

theorem barText_barGap_one_witness:
  "barGap sampleChart = Fin 1
   \<and> bt_text (barText sampleChart (Bar samplePoint) TYPE_INSIDE_BARS) = []
   \<and> bt_text (barText (sampleChart \<lparr> barGap := Fin (1 / 2) \<rparr>) (Bar samplePoint) TYPE_INSIDE_BARS)
       = ''100''"
proof -
  have g: "barGap sampleChart = Fin 1" by (simp add: sampleChart_def)
  have "bt_text (barText (sampleChart \<lparr> barGap := Fin (1 / 2) \<rparr>) (Bar samplePoint) TYPE_INSIDE_BARS)
       = ''100''"
    by (simp add: barText_def Let_def sampleChart_def samplePoint_def getBarLabelText_def
        fitText_def ellipseText_def ellipseLoop.simps charWidth_def js_gt_def js_sub_def two_def)
  with g barText_barGap_one [OF g, of "Bar samplePoint" TYPE_INSIDE_BARS] show ?thesis by simp
qed

text \<open>
  C9.  Fitting with the ellipsis allowed is idempotent for every text measure, text and
  width; with the ellipsis not allowed the result is the empty text when the label is
  longer than the room and the unmodified label otherwise.
\<close>

theorem fitText_idempotent:
  "fitText len (fitText len label w True) w True = fitText len label w True
   \<and> fitText len label w False = (if js_gt (len label) w then [] else label)"
  using ellipseText_result [of len label w]
  by (simp add: fitText_def ellipseText_fits)

text \<open>A label of seven units in a room of five is cut to three units and the ellipsis.\<close>

theorem fitText_idempotent_witness:
  "fitText charWidth ''abc.def'' (Fin 5) True = ''abc'' @ [ellipsis]
   \<and> fitText charWidth (fitText charWidth ''abc.def'' (Fin 5) True) (Fin 5) True
       = ''abc'' @ [ellipsis]
   \<and> fitText charWidth ''abc.def'' (Fin 5) False = []"
proof -
  have e: "fitText charWidth ''abc.def'' (Fin 5) True = ''abc'' @ [ellipsis]"
    by (simp add: fitText_def ellipseText_def ellipseLoop.simps stripDots.simps charWidth_def
        js_gt_def)
  from fitText_idempotent [of charWidth "''abc.def''" "Fin 5"] e show ?thesis
    by (simp add: charWidth_def js_gt_def)
qed

section \<open>Properties of the numeric scale domain\<close>


lemma Max_insert_fold: "Max (insert (a::real) (set rs)) = fold max rs a"
  using Max.set_eq_fold [of a rs] by simp

lemma Min_insert_fold: "Min (insert (a::real) (set rs)) = fold min rs a"
  using Min.set_eq_fold [of a rs] by simp

lemma d3_max_from_Fin: "d3_max_from (Fin a) (map Fin rs) = Fin (Max (insert a (set rs)))"
  unfolding Max_insert_fold
  by (induction rs arbitrary: a) (auto simp: js_gt_def max_def)

lemma d3_max_Fin: "rs \<noteq> [] \<Longrightarrow> d3_max (map Fin rs) = Some (Fin (Max (set rs)))"
  by (cases rs) (auto simp: js_ge_def d3_max_from_Fin)

lemma d3_min_from_Fin: "d3_min_from (Fin a) (map Fin rs) = Fin (Min (insert a (set rs)))"
  unfolding Min_insert_fold
  by (induction rs arbitrary: a) (auto simp: min_def)

lemma d3_min_Fin: "rs \<noteq> [] \<Longrightarrow> d3_min (map Fin rs) = Some (Fin (Min (set rs)))"
  by (cases rs) (auto simp: js_ge_def d3_min_from_Fin)

lemma fold_max_Fin:
  "list_all (\<lambda>e. isFinite (offset e)) es \<Longrightarrow>
   fold (\<lambda>e m. if js_gt (offset e) m then offset e else m) es (Fin a)
     = Fin (fold max (map (\<lambda>e. toReal (offset e)) es) a)"
proof (induction es arbitrary: a)
  case Nil
  show ?case by simp
next
  case (Cons e es)
  then obtain r where r: "offset e = Fin r" by (cases "offset e") auto
  with Cons show ?case by (auto simp: js_gt_def max_def)
qed

lemma fold_min_Fin:
  "list_all (\<lambda>e. isFinite (offset e)) es \<Longrightarrow>
   fold (\<lambda>e m. if js_lt (offset e) m then offset e else m) es (Fin a)
     = Fin (fold min (map (\<lambda>e. toReal (offset e)) es) a)"
proof (induction es arbitrary: a)
  case Nil
  show ?case by simp
next
  case (Cons e es)
  then obtain r where r: "offset e = Fin r" by (cases "offset e") auto
  with Cons show ?case by (auto simp: min_def)
qed

lemma highest_fold:
  "highest d = fold max (map (\<lambda>e. toReal (offset e)) (pointsOf d)) (max (toReal (offsetPos d)) 0)"
  using Max.set_eq_fold [of 0 "toReal (offsetPos d) # map (\<lambda>e. toReal (offset e)) (pointsOf d)"]
  by (simp add: highest_def)

lemma lowest_fold:
  "lowest d = fold min (map (\<lambda>e. toReal (offset e)) (pointsOf d)) (min (toReal (offsetNeg d)) 0)"
  using Min.set_eq_fold [of 0 "toReal (offsetNeg d) # map (\<lambda>e. toReal (offset e)) (pointsOf d)"]
  by (simp add: lowest_def)

lemma maxOffset_finite: "finiteGroup d \<Longrightarrow> maxOffset d = Fin (highest d)"
proof -
  assume f: "finiteGroup d"
  then obtain r where r: "offsetPos d = Fin r" by (cases "offsetPos d") (auto simp: finiteGroup_def)
  have "Math_max (Fin 0) (offsetPos d) = Fin (max r 0)"
    by (auto simp: Math_max_def r max_def)
  with f r show ?thesis
    by (simp add: maxOffset_def highest_fold finiteGroup_def fold_max_Fin)
qed

lemma minOffset_finite: "finiteGroup d \<Longrightarrow> minOffset d = Fin (lowest d)"
proof -
  assume f: "finiteGroup d"
  then obtain r where r: "offsetNeg d = Fin r" by (cases "offsetNeg d") (auto simp: finiteGroup_def)
  have "Math_min (Fin 0) (offsetNeg d) = Fin (min r 0)"
    by (auto simp: Math_min_def r min_def)
  with f r show ?thesis
    by (simp add: minOffset_def lowest_fold finiteGroup_def fold_min_Fin)
qed

lemma Max_scale:
  fixes h :: real
  assumes "0 < h" "ds \<noteq> []"
  shows "Max (set (map (\<lambda>d. t d * h) ds)) = h * Max (t ` set ds)"
proof -
  have m: "mono (\<lambda>x. h * x)" using assms(1) by (simp add: mono_def)
  have "(\<lambda>x. h * x) (Max (t ` set ds)) = Max ((\<lambda>x. h * x) ` (t ` set ds))"
    using assms(2) by (intro mono_Max_commute [OF m]) auto
  then show ?thesis by (simp add: image_image mult.commute)
qed

lemma Min_scale:
  fixes h :: real
  assumes "0 < h" "ds \<noteq> []"
  shows "Min (set (map (\<lambda>d. t d * h) ds)) = h * Min (t ` set ds)"
proof -
  have m: "mono (\<lambda>x. h * x)" using assms(1) by (simp add: mono_def)
  have "(\<lambda>x. h * x) (Min (t ` set ds)) = Min ((\<lambda>x. h * x) ` (t ` set ds))"
    using assms(2) by (intro mono_Min_commute [OF m]) auto
  then show ?thesis by (simp add: image_image mult.commute)
qed

lemma Max_flag:
  fixes h :: real
  assumes "0 < h" "ds \<noteq> []"
  shows "Max (set (map (\<lambda>d. if P d then h else 0) ds)) = (if \<exists>d\<in>set ds. P d then h else 0)"
proof (cases "\<exists>d\<in>set ds. P d")
  case True
  then have "Max ((\<lambda>d. if P d then h else 0) ` set ds) = h"
    using assms(1) by (intro Max_eqI) (auto simp: image_iff)
  with True show ?thesis by simp
next
  case False
  then have "(\<lambda>d. if P d then h else 0) ` set ds = {0}" using assms(2) by (cases ds) auto
  with False show ?thesis by simp
qed

lemma Min_flag:
  fixes h :: real
  assumes "0 < h" "ds \<noteq> []"
  shows "Min (set (map (\<lambda>d. if P d then - h else 0) ds)) = (if \<exists>d\<in>set ds. P d then - h else 0)"
proof (cases "\<exists>d\<in>set ds. P d")
  case True
  then have "Min ((\<lambda>d. if P d then - h else 0) ` set ds) = - h"
    using assms(1) by (intro Min_eqI) (auto simp: image_iff)
  with True show ?thesis by simp
next
  case False
  then have "(\<lambda>d. if P d then - h else 0) ` set ds = {0}" using assms(2) by (cases ds) auto
  with False show ?thesis by simp
qed

lemma gt0_truthy: "js_gt a (Fin 0) \<Longrightarrow> truthy a"
  by (cases a) (auto simp: js_gt_def truthy_def)

lemma lt0_truthy: "js_lt a (Fin 0) \<Longrightarrow> truthy a"
  by (cases a) (auto simp: truthy_def)

text \<open>
  C6.  For a chart with at least one group and a positive finite \<open>gridHeight\<close>: when
  normalized, the maximum is \<open>gridHeight\<close> if some group has a positive stack top above
  zero and 0 otherwise, and the minimum is \<open>-gridHeight\<close> if some group has a negative
  stack top below zero and 0 otherwise; when not normalized (all stack tops and offsets
  finite), the maximum is \<open>gridHeight\<close> times the largest over the groups of the highest
  of zero, the positive stack top and every point offset, and the minimum is
  \<open>gridHeight\<close> times the smallest over the groups of the lowest of zero, the negative
  stack top and every point offset.
\<close>

theorem initChart_domain:
  assumes "data g \<noteq> []" and "gridHeight g = Fin h" and "0 < h"
  shows "(normalized g \<longrightarrow>
            initChart_max g = Some (Fin (if \<exists>d\<in>set (data g). js_gt (offsetPos d) (Fin 0) then h else 0))
          \<and> initChart_min g = Some (Fin (if \<exists>d\<in>set (data g). js_lt (offsetNeg d) (Fin 0) then - h else 0)))
       \<and> (\<not> normalized g \<and> list_all finiteGroup (data g) \<longrightarrow>
            initChart_max g = Some (Fin (h * Max (highest ` set (data g))))
          \<and> initChart_min g = Some (Fin (h * Min (lowest ` set (data g)))))"
proof (intro conjI impI)
  assume n: "normalized g"
  have "map (\<lambda>d. if normalized g
                        then (if truthy (offsetPos d) \<and> js_gt (offsetPos d) (Fin 0)
                              then gridHeight g else Fin 0)
                        else js_mul (maxOffset d) (gridHeight g)) (data g)
      = map Fin (map (\<lambda>d. if js_gt (offsetPos d) (Fin 0) then h else 0) (data g))"
    using n assms(2) by (auto simp: gt0_truthy)
  then show "initChart_max g = Some (Fin (if \<exists>d\<in>set (data g). js_gt (offsetPos d) (Fin 0) then h else 0))"
    unfolding initChart_max_def using assms(1,3) by (simp only: d3_max_Fin Max_flag map_is_Nil_conv not_False_eq_True)
  have "map (\<lambda>d. if normalized g
                        then (if truthy (offsetNeg d) \<and> js_lt (offsetNeg d) (Fin 0)
                              then js_neg (gridHeight g) else Fin 0)
                        else js_mul (minOffset d) (gridHeight g)) (data g)
      = map Fin (map (\<lambda>d. if js_lt (offsetNeg d) (Fin 0) then - h else 0) (data g))"
    using n assms(2) by (auto simp: lt0_truthy)
  then show "initChart_min g = Some (Fin (if \<exists>d\<in>set (data g). js_lt (offsetNeg d) (Fin 0) then - h else 0))"
    unfolding initChart_min_def using assms(1,3) by (simp only: d3_min_Fin Min_flag map_is_Nil_conv not_False_eq_True)
next
  assume a: "\<not> normalized g \<and> list_all finiteGroup (data g)"
  then have "map (\<lambda>d. if normalized g
                        then (if truthy (offsetPos d) \<and> js_gt (offsetPos d) (Fin 0)
                              then gridHeight g else Fin 0)
                        else js_mul (maxOffset d) (gridHeight g)) (data g)
      = map Fin (map (\<lambda>d. highest d * h) (data g))"
    using assms(2) by (auto simp: list_all_iff maxOffset_finite)
  then show "initChart_max g = Some (Fin (h * Max (highest ` set (data g))))"
    unfolding initChart_max_def using assms(1,3) by (simp only: d3_max_Fin Max_scale map_is_Nil_conv not_False_eq_True)
  from a have "map (\<lambda>d. if normalized g
                        then (if truthy (offsetNeg d) \<and> js_lt (offsetNeg d) (Fin 0)
                              then js_neg (gridHeight g) else Fin 0)
                        else js_mul (minOffset d) (gridHeight g)) (data g)
      = map Fin (map (\<lambda>d. lowest d * h) (data g))"
    using assms(2) by (auto simp: list_all_iff minOffset_finite)
  then show "initChart_min g = Some (Fin (h * Min (lowest ` set (data g))))"
    unfolding initChart_min_def using assms(1,3) by (simp only: d3_min_Fin Min_scale map_is_Nil_conv not_False_eq_True)
qed

text \<open>
  On the sample groups with \<open>gridHeight = 2\<close> the domain is \<open>[-40, 300]\<close>, and
  \<open>[-2, 2]\<close> when normalized.
\<close>

theorem initChart_domain_witness:
  "initChart_max (sampleChart \<lparr> data := sampleData, gridHeight := Fin 2 \<rparr>) = Some (Fin 300)
   \<and> initChart_min (sampleChart \<lparr> data := sampleData, gridHeight := Fin 2 \<rparr>) = Some (Fin (- 40))
   \<and> initChart_max (sampleChart \<lparr> data := sampleData, gridHeight := Fin 2, normalized := True \<rparr>)
       = Some (Fin 2)
   \<and> initChart_min (sampleChart \<lparr> data := sampleData, gridHeight := Fin 2, normalized := True \<rparr>)
       = Some (Fin (- 2))"
proof -
  have d: "sampleData \<noteq> []" by (simp add: sampleData_def)
  have "highest ` set sampleData = {150, 80}" "lowest ` set sampleData = {0, - 20}"
    by (simp_all add: sampleData_def highest_fold lowest_fold pointsOf_def)
  moreover have "list_all finiteGroup sampleData"
    by (simp add: sampleData_def finiteGroup_def pointsOf_def)
  moreover have "(\<exists>d\<in>set sampleData. js_gt (offsetPos d) (Fin 0))"
    "(\<exists>d\<in>set sampleData. js_lt (offsetNeg d) (Fin 0))"
    by (simp_all add: sampleData_def js_gt_def)
  ultimately show ?thesis
    using initChart_domain [of "sampleChart \<lparr> data := sampleData, gridHeight := Fin 2 \<rparr>" 2]
      initChart_domain [of "sampleChart \<lparr> data := sampleData, gridHeight := Fin 2, normalized := True \<rparr>" 2]
      d
    by (simp add: sampleChart_def)
qed

section \<open>Properties of the topological sort\<close>

lemma visited_place [simp]: "visited (place node st) = visited st"
  by (simp add: place_def)

lemma visit_Suc_cases:
  assumes "visit (Suc depth) nodes edges st node i preds = Some (Inr st')"
  obtains (seen) "node \<notin> set preds" "i \<in> visited st" "st' = st"
  | (fresh) st2 where "node \<notin> set preds" "i \<notin> visited st"
      "visitChildren depth nodes edges (st \<lparr> visited := insert i (visited st) \<rparr>)
         (rev (map snd (filter (\<lambda>edge. fst edge = node) edges))) (preds @ [node]) = Some (Inr st2)"
      "st' = place node st2"
  using assms by (auto split: if_splits option.splits sum.splits)

lemma visitChildren_Cons_cases:
  assumes "visitChildren depth nodes edges st (child # rest) preds = Some (Inr st')"
  obtains st1 where "visit depth nodes edges st child (indexOf nodes child) preds = Some (Inr st1)"
    "visitChildren depth nodes edges st1 rest preds = Some (Inr st')"
  using assms by (auto split: option.splits sum.splits)

lemma visit_mono:
  "visit depth nodes edges st node i preds = Some (Inr st') \<Longrightarrow> visited st \<subseteq> visited st'"
  "visitChildren depth nodes edges st cs preds = Some (Inr st') \<Longrightarrow> visited st \<subseteq> visited st'"
proof (induction depth nodes edges st node i preds and depth nodes edges st cs preds
    arbitrary: st' and st' rule: visit_visitChildren.induct)
  case (1 nodes edges st node i predecessors)
  then show ?case by simp
next
  case (2 depth nodes edges st node i predecessors)
  from 2(2) show ?case
  proof (cases rule: visit_Suc_cases)
    case seen
    then show ?thesis by simp
  next
    case (fresh st2)
    from 2(1) [OF fresh(1,2,3)] fresh(4) show ?thesis by auto
  qed
next
  case (3 depth nodes edges st preds)
  then show ?case by simp
next
  case (4 depth nodes edges st child rest preds)
  from 4(3) show ?case
  proof (cases rule: visitChildren_Cons_cases)
    case (1 st1)
    from 4(1) [OF 1(1)] 4(2) [OF 1(1) refl 1(2)] show ?thesis by blast
  qed
qed


lemma visit_Suc_error:
  assumes "visit (Suc depth) nodes edges st node i preds = Some (Inl e)"
  obtains (cyclic) "node \<in> set preds" "e = CyclicDependency"
  | (below) "node \<notin> set preds" "i \<notin> visited st"
      "visitChildren depth nodes edges (st \<lparr> visited := insert i (visited st) \<rparr>)
         (rev (map snd (filter (\<lambda>edge. fst edge = node) edges))) (preds @ [node]) = Some (Inl e)"
  using assms by (auto split: if_splits option.splits sum.splits)

lemma visitChildren_Cons_error:
  assumes "visitChildren depth nodes edges st (child # rest) preds = Some (Inl e)"
  obtains (head) "visit depth nodes edges st child (indexOf nodes child) preds = Some (Inl e)"
  | (tail) st1 where "visit depth nodes edges st child (indexOf nodes child) preds = Some (Inr st1)"
      "visitChildren depth nodes edges st1 rest preds = Some (Inl e)"
  using assms by (auto split: option.splits sum.splits)

lemma visit_throws_cyclic:
  "visit depth nodes edges st node i preds = Some (Inl e) \<Longrightarrow> e = CyclicDependency"
  "visitChildren depth nodes edges st cs preds = Some (Inl e) \<Longrightarrow> e = CyclicDependency"
proof (induction depth nodes edges st node i preds and depth nodes edges st cs preds
    rule: visit_visitChildren.induct)
  case (1 nodes edges st node i predecessors)
  then show ?case by simp
next
  case (2 depth nodes edges st node i predecessors)
  from 2(2) show ?case
  proof (cases rule: visit_Suc_error)
    case cyclic
    then show ?thesis by simp
  next
    case below
    from 2(1) [OF below] show ?thesis .
  qed
next
  case (3 depth nodes edges st preds)
  then show ?case by simp
next
  case (4 depth nodes edges st child rest preds)
  from 4(3) show ?case
  proof (cases rule: visitChildren_Cons_error)
    case head
    from 4(1) [OF head] show ?thesis .
  next
    case (tail st1)
    from 4(2) [OF tail(1) refl tail(2)] show ?thesis .
  qed
qed

lemma unvisited_mono: "visited st \<subseteq> visited st' \<Longrightarrow> unvisited nodes st' \<le> unvisited nodes st"
proof -
  assume "visited st \<subseteq> visited st'"
  then have "{- 1..<int (length nodes)} - visited st' \<subseteq> {- 1..<int (length nodes)} - visited st"
    by blast
  moreover have "finite ({- 1..<int (length nodes)} - visited st)" by simp
  ultimately show ?thesis unfolding unvisited_def by (rule card_mono [rotated])
qed

lemma unvisited_insert:
  assumes "- 1 \<le> i" "i < int (length nodes)" "i \<notin> visited st"
  shows "unvisited nodes (st \<lparr> visited := insert i (visited st) \<rparr>) < unvisited nodes st"
proof -
  let ?A = "{- 1..<int (length nodes)} - visited st"
  have "i \<in> ?A" using assms by simp
  moreover have "finite ?A" by simp
  ultimately have "card (?A - {i}) < card ?A" by (rule card_Diff1_less [rotated])
  moreover have "{- 1..<int (length nodes)} - insert i (visited st) = ?A - {i}" by blast
  ultimately show ?thesis by (simp add: unvisited_def)
qed

lemma takeWhile_less: "x \<in> set xs \<Longrightarrow> length (takeWhile (\<lambda>y. y \<noteq> x) xs) < length xs"
  by (induction xs) auto

lemma indexOf_range: "- 1 \<le> indexOf nodes x \<and> indexOf nodes x < int (length nodes)"
  using takeWhile_less [of x nodes] by (simp add: indexOf_def)

lemma visit_fuel:
  "unvisited nodes st < depth \<Longrightarrow> - 1 \<le> i \<Longrightarrow> i < int (length nodes) \<Longrightarrow>
     visit depth nodes edges st node i preds \<noteq> None"
  "unvisited nodes st < depth \<Longrightarrow> visitChildren depth nodes edges st cs preds \<noteq> None"
proof (induction depth nodes edges st node i preds and depth nodes edges st cs preds
    rule: visit_visitChildren.induct)
  case (1 nodes edges st node i predecessors)
  then show ?case by simp
next
  case (2 depth nodes edges st node i predecessors)
  show ?case
  proof (cases "node \<in> set predecessors \<or> i \<in> visited st")
    case True
    then show ?thesis by auto
  next
    case False
    with 2(3,4) have "unvisited nodes (st \<lparr> visited := insert i (visited st) \<rparr>) < unvisited nodes st"
      by (intro unvisited_insert) auto
    with 2(2) have "unvisited nodes (st \<lparr> visited := insert i (visited st) \<rparr>) < depth" by simp
    with 2(1) False have "visitChildren depth nodes edges (st \<lparr> visited := insert i (visited st) \<rparr>)
                  (rev (map snd (filter (\<lambda>edge. fst edge = node) edges)))
                  (predecessors @ [node]) \<noteq> None" by blast
    with False show ?thesis by (auto split: option.splits sum.splits)
  qed
next
  case (3 depth nodes edges st preds)
  then show ?case by simp
next
  case (4 depth nodes edges st child rest preds)
  have v: "visit depth nodes edges st child (indexOf nodes child) preds \<noteq> None"
    using 4(1) [OF 4(3)] indexOf_range [of nodes child] by simp
  show ?case
  proof (cases "visit depth nodes edges st child (indexOf nodes child) preds")
    case None
    with v show ?thesis by simp
  next
    case (Some r)
    show ?thesis
    proof (cases r)
      case (Inl e)
      with Some show ?thesis by simp
    next
      case (Inr st')
      with Some have "visited st \<subseteq> visited st'" by (auto dest: visit_mono(1))
      then have "unvisited nodes st' < depth" using unvisited_mono [of st st' nodes] 4(3) by simp
      with 4(2) [OF Some Inr] Some Inr show ?thesis by simp
    qed
  qed
qed

lemma visitRoots_fuel:
  "unvisited nodes st < depth \<Longrightarrow> list_all (\<lambda>i. i < length nodes) is \<Longrightarrow>
   visitRoots depth nodes edges st is \<noteq> None"
proof (induction "is" arbitrary: st)
  case Nil
  then show ?case by simp
next
  case (Cons i "is")
  show ?case
  proof (cases "int i \<in> visited st")
    case True
    with Cons show ?thesis by simp
  next
    case False
    have v: "visit depth nodes edges st (nodes ! i) (int i) [] \<noteq> None"
      using Cons.prems by (intro visit_fuel(1)) auto
    show ?thesis
    proof (cases "visit depth nodes edges st (nodes ! i) (int i) []")
      case None
      with v show ?thesis by simp
    next
      case (Some r)
      show ?thesis
      proof (cases r)
        case (Inl e)
        with Some False show ?thesis by simp
      next
        case (Inr st')
        with Some have "visited st \<subseteq> visited st'" by (auto dest: visit_mono(1))
        then have "unvisited nodes st' < depth"
          using unvisited_mono [of st st' nodes] Cons.prems(1) by simp
        with Cons.IH [of st'] Cons.prems(2) Some Inr False show ?thesis by simp
      qed
    qed
  qed
qed

lemma toposort_returns: "toposort nodes edges \<noteq> None"
proof -
  have "card {- 1..<int (length nodes)} = length nodes + 1" by simp
  then have "unvisited nodes \<lparr> cursor = int (length nodes), sortedArr = [], visited = {} \<rparr>
      < length nodes + 2"
    by (simp add: unvisited_def)
  then have "visitRoots (length nodes + 2) nodes edges
      \<lparr> cursor = int (length nodes), sortedArr = [], visited = {} \<rparr> (rev [0..<length nodes]) \<noteq> None"
    by (intro visitRoots_fuel) (auto simp: list_all_iff)
  then show ?thesis by (auto simp: toposort_def split: option.splits sum.splits)
qed

lemma indexOf_nth:
  assumes "x \<in> set xs"
  shows "0 \<le> indexOf xs x" "indexOf xs x < int (length xs)" "xs ! nat (indexOf xs x) = x"
proof -
  from assms have l: "length (takeWhile (\<lambda>y. y \<noteq> x) xs) < length xs" by (rule takeWhile_less)
  from assms show "0 \<le> indexOf xs x" by (simp add: indexOf_def)
  from assms l show "indexOf xs x < int (length xs)" by (simp add: indexOf_def)
  from l have "\<not> (\<lambda>y. y \<noteq> x) (xs ! length (takeWhile (\<lambda>y. y \<noteq> x) xs))"
    by (rule nth_length_takeWhile)
  with assms show "xs ! nat (indexOf xs x) = x" by (simp add: indexOf_def)
qed

lemma topoInv_finite: "topoInv nodes edges st preds \<Longrightarrow> finite (visited st)"
  unfolding topoInv_def by (auto intro: finite_subset [of _ "{0..<int (length nodes)}"])

lemma topoInv_seen:
  assumes "topoInv nodes edges st preds" "i \<in> visited st" "nodes ! nat i \<notin> set preds"
  shows "nodes ! nat i \<in> set (sortedArr st)"
proof -
  have f: "finite (visited st)" using assms(1) by (rule topoInv_finite)
  with assms(2) have "nodes ! nat i \<in># image_mset (\<lambda>j. nodes ! nat j) (mset_set (visited st))"
    by auto
  with assms(1) have "nodes ! nat i \<in># mset (sortedArr st) + mset preds" by (simp add: topoInv_def)
  with assms(3) show ?thesis by auto
qed

lemma topoInv_mark:
  assumes "topoInv nodes edges st preds" "0 \<le> i" "i < int (length nodes)" "i \<notin> visited st"
  shows "topoInv nodes edges (st \<lparr> visited := insert i (visited st) \<rparr>) (preds @ [nodes ! nat i])"
proof -
  have f: "finite (visited st)" using assms(1) by (rule topoInv_finite)
  with assms(4) have "mset_set (insert i (visited st)) = add_mset i (mset_set (visited st))"
    by simp
  with assms show ?thesis by (simp add: topoInv_def)
qed

lemma topoInv_room:
  assumes "topoInv nodes edges st (preds @ [node])"
  shows "1 \<le> cursor st"
proof -
  have f: "finite (visited st)" using assms by (rule topoInv_finite)
  have "size (image_mset (\<lambda>j. nodes ! nat j) (mset_set (visited st)))
      = size (mset (sortedArr st) + mset (preds @ [node]))"
    using assms by (simp add: topoInv_def)
  then have c: "card (visited st) = length (sortedArr st) + length preds + 1" by simp
  have "card (visited st) \<le> card {0..<int (length nodes)}"
    using assms by (intro card_mono) (simp_all add: topoInv_def)
  then have "card (visited st) \<le> length nodes" by simp
  with c have "int (length (sortedArr st)) + 1 \<le> int (length nodes)" by linarith
  with assms show ?thesis by (simp add: topoInv_def)
qed

lemma topoInv_place:
  assumes "topoInv nodes edges st (preds @ [node])"
    and "\<forall>e\<in>set edges. fst e = node \<longrightarrow> snd e \<in> set (sortedArr st)"
  shows "topoInv nodes edges (place node st) preds \<and> sortedArr (place node st) = node # sortedArr st"
proof -
  from assms(1) have "1 \<le> cursor st" by (rule topoInv_room)
  then have s: "sortedArr (place node st) = node # sortedArr st" "cursor (place node st) = cursor st - 1"
    by (simp_all add: place_def)
  with assms show ?thesis by (simp add: topoInv_def)
qed

lemma visit_inv:
  "visit depth nodes edges st node i preds = Some (Inr st') \<Longrightarrow> topoInv nodes edges st preds \<Longrightarrow>
     closedEdges nodes edges \<Longrightarrow> 0 \<le> i \<Longrightarrow> i < int (length nodes) \<Longrightarrow> nodes ! nat i = node \<Longrightarrow>
     topoInv nodes edges st' preds \<and> node \<in> set (sortedArr st') \<and> set (sortedArr st) \<subseteq> set (sortedArr st')"
  "visitChildren depth nodes edges st cs preds = Some (Inr st') \<Longrightarrow> topoInv nodes edges st preds \<Longrightarrow>
     closedEdges nodes edges \<Longrightarrow> set cs \<subseteq> set nodes \<Longrightarrow>
     topoInv nodes edges st' preds \<and> set cs \<subseteq> set (sortedArr st') \<and> set (sortedArr st) \<subseteq> set (sortedArr st')"
proof (induction depth nodes edges st node i preds and depth nodes edges st cs preds
    arbitrary: st' and st' rule: visit_visitChildren.induct)
  case (1 nodes edges st node i predecessors)
  then show ?case by simp
next
  case (2 depth nodes edges st node i predecessors)
  from 2(2) show ?case
  proof (cases rule: visit_Suc_cases)
    case seen
    with 2(3) 2(7) have "node \<in> set (sortedArr st)" using topoInv_seen [of nodes edges st predecessors i]
      by simp
    with seen 2(3) show ?thesis by simp
  next
    case (fresh st2)
    let ?cs = "rev (map snd (filter (\<lambda>edge. fst edge = node) edges))"
    let ?st1 = "st \<lparr> visited := insert i (visited st) \<rparr>"
    have inv1: "topoInv nodes edges ?st1 (predecessors @ [node])"
      using topoInv_mark [OF 2(3) 2(5) 2(6) fresh(2)] 2(7) by simp
    have "node \<in> set nodes" using 2(5,6,7) by (metis nat_less_iff nth_mem)
    then have cs: "set ?cs \<subseteq> set nodes" using 2(4) by (auto simp: closedEdges_def)
    from 2(1) [OF fresh(1,2,3) inv1 2(4) cs]
    have inv2: "topoInv nodes edges st2 (predecessors @ [node])"
      and sub: "set ?cs \<subseteq> set (sortedArr st2)" and keep: "set (sortedArr ?st1) \<subseteq> set (sortedArr st2)"
      by simp_all
    from sub have "\<forall>e\<in>set edges. fst e = node \<longrightarrow> snd e \<in> set (sortedArr st2)" by auto
    with inv2 have "topoInv nodes edges (place node st2) predecessors
        \<and> sortedArr (place node st2) = node # sortedArr st2"
      by (rule topoInv_place)
    with keep fresh(4) show ?thesis by auto
  qed
next
  case (3 depth nodes edges st preds)
  then show ?case by simp
next
  case (4 depth nodes edges st child rest preds)
  from 4(3) show ?case
  proof (cases rule: visitChildren_Cons_cases)
    case (1 st1)
    have c: "child \<in> set nodes" using 4(6) by simp
    from 4(1) [OF 1(1) 4(4) 4(5) indexOf_nth [OF c]]
    have i1: "topoInv nodes edges st1 preds" and c1: "child \<in> set (sortedArr st1)"
      and k1: "set (sortedArr st) \<subseteq> set (sortedArr st1)" by simp_all
    have r: "set rest \<subseteq> set nodes" using 4(6) by simp
    from 4(2) [OF 1(1) refl 1(2) i1 4(5) r]
    have "topoInv nodes edges st' preds" "set rest \<subseteq> set (sortedArr st')"
      "set (sortedArr st1) \<subseteq> set (sortedArr st')" by simp_all
    with c1 k1 show ?thesis by auto
  qed
qed

lemma visit_marks:
  assumes "visit depth nodes edges st node i preds = Some (Inr st')"
  shows "i \<in> visited st'"
proof (cases depth)
  case 0
  with assms show ?thesis by simp
next
  case (Suc d)
  from assms [unfolded Suc] show ?thesis
  proof (cases rule: visit_Suc_cases)
    case seen
    then show ?thesis by simp
  next
    case (fresh st2)
    from visit_mono(2) [OF fresh(3)] fresh(4) show ?thesis by auto
  qed
qed

lemma visitRoots_inv:
  "visitRoots depth nodes edges st is = Some (Inr st') \<Longrightarrow> topoInv nodes edges st [] \<Longrightarrow>
   closedEdges nodes edges \<Longrightarrow> list_all (\<lambda>i. i < length nodes) is \<Longrightarrow>
   topoInv nodes edges st' [] \<and> int ` set is \<subseteq> visited st' \<and> visited st \<subseteq> visited st'"
proof (induction "is" arbitrary: st)
  case Nil
  then show ?case by simp
next
  case (Cons i "is")
  have r: "list_all (\<lambda>i. i < length nodes) is" and i: "i < length nodes" using Cons.prems(4) by simp_all
  show ?case
  proof (cases "int i \<in> visited st")
    case True
    with Cons.prems(1) have "visitRoots depth nodes edges st is = Some (Inr st')" by simp
    from Cons.IH [OF this Cons.prems(2,3) r] True show ?thesis by auto
  next
    case False
    with Cons.prems(1) obtain st1 where
      v: "visit depth nodes edges st (nodes ! i) (int i) [] = Some (Inr st1)"
      and w: "visitRoots depth nodes edges st1 is = Some (Inr st')"
      by (auto split: option.splits sum.splits)
    have "topoInv nodes edges st1 []"
      using visit_inv(1) [OF v Cons.prems(2,3)] i by simp
    from Cons.IH [OF w this Cons.prems(3) r]
    have a: "topoInv nodes edges st' []" "int ` set is \<subseteq> visited st'" "visited st1 \<subseteq> visited st'"
      by simp_all
    from visit_marks [OF v] visit_mono(1) [OF v] a show ?thesis by auto
  qed
qed

lemma image_mset_positions:
  "image_mset (\<lambda>j. nodes ! nat j) (mset_set {0..<int (length nodes)}) = mset nodes"
proof -
  have "{0..<int (length nodes)} = int ` {0..<length nodes}"
    by (simp add: image_int_atLeastLessThan)
  moreover have "image_mset int (mset_set {0..<length nodes}) = mset_set (int ` {0..<length nodes})"
    by (rule image_mset_mset_set) simp
  ultimately have "image_mset (\<lambda>j. nodes ! nat j) (mset_set {0..<int (length nodes)})
      = image_mset (\<lambda>j. nodes ! nat j) (image_mset int (mset_set {0..<length nodes}))"
    by simp
  also have "\<dots> = image_mset (\<lambda>k. nodes ! k) (mset [0..<length nodes])"
    by (simp add: multiset.map_comp comp_def)
  also have "\<dots> = mset (map (\<lambda>k. nodes ! k) [0..<length nodes])" by simp
  also have "\<dots> = mset nodes" by (simp add: map_nth)
  finally show ?thesis .
qed

lemma closedList_inOrder: "closedList edges S \<Longrightarrow> inOrder edges S"
proof (induction S)
  case Nil
  show ?case by (simp add: inOrder_def)
next
  case (Cons a S)
  then have r: "inOrder edges S" and c: "\<forall>e\<in>set edges. fst e = a \<longrightarrow> snd e \<in> set S" by simp_all
  show ?case
    unfolding inOrder_def
  proof (intro ballI allI impI)
    fix e i
    assume e: "e \<in> set edges" and i: "i < length (a # S)" and f: "(a # S) ! i = fst e"
    show "\<exists>j>i. j < length (a # S) \<and> (a # S) ! j = snd e"
    proof (cases i)
      case 0
      with f c e have "snd e \<in> set S" by simp
      then obtain k where "k < length S" "S ! k = snd e" by (auto simp: in_set_conv_nth)
      with 0 show ?thesis by (intro exI [of _ "Suc k"]) simp
    next
      case (Suc i')
      with i f have "i' < length S" "S ! i' = fst e" by simp_all
      with r e obtain j where "i' < j" "j < length S" "S ! j = snd e"
        unfolding inOrder_def by blast
      with Suc show ?thesis by (intro exI [of _ "Suc j"]) simp
    qed
  qed
qed

lemma toposort_sound:
  assumes "closedEdges nodes edges" and "toposort nodes edges = Some (Inr S)"
  shows "mset S = mset nodes \<and> inOrder edges S"
proof -
  let ?st0 = "\<lparr> cursor = int (length nodes), sortedArr = [], visited = {} \<rparr> :: 'a topo"
  from assms(2) obtain st where
    v: "visitRoots (length nodes + 2) nodes edges ?st0 (rev [0..<length nodes]) = Some (Inr st)"
    and S: "S = sortedArr st"
    by (auto simp: toposort_def split: option.splits sum.splits)
  have i0: "topoInv nodes edges ?st0 []" by (simp add: topoInv_def)
  have "list_all (\<lambda>i. i < length nodes) (rev [0..<length nodes])" by (simp add: list_all_iff)
  from visitRoots_inv [OF v i0 assms(1) this]
  have inv: "topoInv nodes edges st []" and all: "int ` set (rev [0..<length nodes]) \<subseteq> visited st"
    by simp_all
  from all have "{0..<int (length nodes)} \<subseteq> visited st"
    by (simp add: image_int_atLeastLessThan)
  with inv have "visited st = {0..<int (length nodes)}" by (auto simp: topoInv_def)
  with inv have "mset (sortedArr st) = mset nodes"
    using image_mset_positions [of nodes] by (simp add: topoInv_def)
  moreover from inv have "inOrder edges (sortedArr st)"
    by (intro closedList_inOrder) (simp add: topoInv_def)
  ultimately show ?thesis using S by simp
qed

lemma edgePath_suffix: "edgePath edges (xs @ ys) \<Longrightarrow> edgePath edges ys"
proof (induction xs)
  case Nil
  then show ?case by simp
next
  case (Cons x xs)
  then show ?case by (cases "xs @ ys") auto
qed

lemma edgePath_reach: "edgePath edges (x # xs) \<Longrightarrow> y \<in> set xs \<Longrightarrow> (x, y) \<in> (set edges)\<^sup>+"
proof (induction xs arbitrary: x)
  case Nil
  then show ?case by simp
next
  case (Cons z zs)
  then have e: "(x, z) \<in> set edges" and c: "edgePath edges (z # zs)" by simp_all
  show ?case
  proof (cases "y = z")
    case True
    with e show ?thesis by auto
  next
    case False
    with Cons.prems(2) have "y \<in> set zs" by simp
    from Cons.IH [OF c this] e show ?thesis by (rule trancl_into_trancl2 [rotated])
  qed
qed

lemma edgePath_snoc: "edgePath edges (xs @ [x]) \<Longrightarrow> (x, y) \<in> set edges \<Longrightarrow> edgePath edges ((xs @ [x]) @ [y])"
proof (induction xs)
  case Nil
  then show ?case by simp
next
  case (Cons a xs)
  then show ?case by (cases xs) auto
qed

lemma edgePath_cycle:
  assumes "edgePath edges (preds @ [node])" "node \<in> set preds"
  shows "(node, node) \<in> (set edges)\<^sup>+"
proof -
  from assms(2) obtain as bs where p: "preds = as @ node # bs" by (auto dest: split_list)
  with assms(1) have "edgePath edges (as @ (node # bs @ [node]))" by simp
  then have "edgePath edges (node # bs @ [node])" by (rule edgePath_suffix)
  then show ?thesis by (rule edgePath_reach) simp
qed

lemma visit_acyclic:
  "acyclic (set edges) \<Longrightarrow> edgePath edges (preds @ [node]) \<Longrightarrow>
     visit depth nodes edges st node i preds \<noteq> Some (Inl e)"
  "acyclic (set edges) \<Longrightarrow> \<forall>c\<in>set cs. edgePath edges (preds @ [c]) \<Longrightarrow>
     visitChildren depth nodes edges st cs preds \<noteq> Some (Inl e)"
proof (induction depth nodes edges st node i preds and depth nodes edges st cs preds
    rule: visit_visitChildren.induct)
  case (1 nodes edges st node i predecessors)
  then show ?case by simp
next
  case (2 depth nodes edges st node i predecessors)
  show ?case
  proof
    assume "visit (Suc depth) nodes edges st node i predecessors = Some (Inl e)"
    then show False
    proof (cases rule: visit_Suc_error)
      case cyclic
      with 2(3) have "(node, node) \<in> (set edges)\<^sup>+" by (intro edgePath_cycle)
      with 2(2) show False by (simp add: acyclic_def)
    next
      case below
      have "\<forall>c\<in>set (rev (map snd (filter (\<lambda>edge. fst edge = node) edges))).
          edgePath edges ((predecessors @ [node]) @ [c])"
      proof
        fix c
        assume "c \<in> set (rev (map snd (filter (\<lambda>edge. fst edge = node) edges)))"
        then have "(node, c) \<in> set edges" by auto
        with 2(3) show "edgePath edges ((predecessors @ [node]) @ [c])" by (rule edgePath_snoc)
      qed
      from 2(1) [OF below(1,2) 2(2) this] below(3) show False by simp
    qed
  qed
next
  case (3 depth nodes edges st preds)
  then show ?case by simp
next
  case (4 depth nodes edges st child rest preds)
  show ?case
  proof
    assume "visitChildren depth nodes edges st (child # rest) preds = Some (Inl e)"
    then show False
    proof (cases rule: visitChildren_Cons_error)
      case head
      with 4(1) [OF 4(3)] 4(4) show False by simp
    next
      case (tail st1)
      from 4(2) [OF tail(1) refl 4(3)] 4(4) tail(2) show False by simp
    qed
  qed
qed

lemma visitRoots_acyclic:
  "acyclic (set edges) \<Longrightarrow> visitRoots depth nodes edges st is \<noteq> Some (Inl e)"
proof (induction "is" arbitrary: st)
  case Nil
  then show ?case by simp
next
  case (Cons i "is")
  have "visit depth nodes edges st (nodes ! i) (int i) [] \<noteq> Some (Inl e)"
    using Cons.prems by (intro visit_acyclic(1)) simp_all
  with Cons show ?case by (auto split: option.splits sum.splits)
qed

lemma visitRoots_throws_cyclic:
  "visitRoots depth nodes edges st is = Some (Inl e) \<Longrightarrow> e = CyclicDependency"
proof (induction "is" arbitrary: st)
  case Nil
  then show ?case by simp
next
  case (Cons i "is")
  then show ?case
    by (auto split: if_splits option.splits sum.splits dest: visit_throws_cyclic(1))
qed

lemma inOrder_acyclic:
  assumes "inOrder edges S" and "\<forall>e\<in>set edges. fst e \<in> set S"
  shows "acyclic (set edges)"
proof -
  define m where "m x = Max {i. i < length S \<and> S ! i = x}" for x
  have "set edges \<subseteq> measure m"
  proof
    fix e
    assume e: "e \<in> set edges"
    with assms(2) have "fst e \<in> set S" by simp
    then have ne: "{i. i < length S \<and> S ! i = fst e} \<noteq> {}" by (auto simp: in_set_conv_nth)
    have fin: "finite {i. i < length S \<and> S ! i = x}" for x by simp
    from Max_in [OF fin ne] have a: "m (fst e) < length S" "S ! m (fst e) = fst e"
      by (simp_all add: m_def)
    with assms(1) e obtain j where j: "m (fst e) < j" "j < length S" "S ! j = snd e"
      unfolding inOrder_def by blast
    then have "j \<le> m (snd e)" unfolding m_def by (intro Max_ge) simp_all
    with j(1) have "m (fst e) < m (snd e)" by simp
    then show "e \<in> measure m" by (cases e) simp
  qed
  moreover have "acyclic (measure m)" by (rule wf_acyclic) simp
  ultimately show ?thesis by (rule acyclic_subset [rotated])
qed

lemma toposort_acyclic:
  assumes "edgesWithin nodes edges" and a: "acyclic (set edges)"
  shows "\<exists>S. toposort nodes edges = Some (Inr S) \<and> mset S = mset nodes \<and> inOrder edges S"
proof -
  have ce: "closedEdges nodes edges" using assms(1) by (simp add: closedEdges_def edgesWithin_def)
  let ?st0 = "\<lparr> cursor = int (length nodes), sortedArr = [], visited = {} \<rparr> :: 'a topo"
  obtain r where r: "toposort nodes edges = Some r" using toposort_returns [of nodes edges] by auto
  have "\<exists>S. r = Inr S"
  proof (cases r)
    case (Inl e)
    with r have "visitRoots (length nodes + 2) nodes edges ?st0 (rev [0..<length nodes]) = Some (Inl e)"
      by (auto simp: toposort_def split: option.splits sum.splits)
    with visitRoots_acyclic [OF a] show ?thesis by blast
  next
    case (Inr S)
    then show ?thesis by simp
  qed
  then obtain S where "toposort nodes edges = Some (Inr S)" using r by auto
  with toposort_sound [OF ce this] show ?thesis by blast
qed

lemma toposort_cyclic:
  assumes "edgesWithin nodes edges" and n: "\<not> acyclic (set edges)"
  shows "toposort nodes edges = Some (Inl CyclicDependency)"
proof -
  have ce: "closedEdges nodes edges" using assms(1) by (simp add: closedEdges_def edgesWithin_def)
  let ?st0 = "\<lparr> cursor = int (length nodes), sortedArr = [], visited = {} \<rparr> :: 'a topo"
  obtain r where r: "toposort nodes edges = Some r" using toposort_returns [of nodes edges] by auto
  show ?thesis
  proof (cases r)
    case (Inl e)
    with r have "visitRoots (length nodes + 2) nodes edges ?st0 (rev [0..<length nodes]) = Some (Inl e)"
      by (auto simp: toposort_def split: option.splits sum.splits)
    then have "e = CyclicDependency" by (rule visitRoots_throws_cyclic)
    with r Inl show ?thesis by simp
  next
    case (Inr S)
    with r have s: "toposort nodes edges = Some (Inr S)" by simp
    from toposort_sound [OF ce s] have m: "mset S = mset nodes" and p: "inOrder edges S" by simp_all
    from m have "set S = set nodes" by (rule mset_eq_setD)
    with assms(1) have "\<forall>e\<in>set edges. fst e \<in> set S" by (simp add: edgesWithin_def)
    with p have "acyclic (set edges)" by (rule inOrder_acyclic)
    with n show ?thesis by simp
  qed
qed

text \<open>
  C10.  When both endpoints of every edge are nodes: if the edges have no cycle,
  \<open>toposort\<close> returns a permutation of the node list in which every occurrence of the
  source of an edge comes before an occurrence of its target; if they have a cycle, it
  throws the cyclic dependency error.
\<close>

theorem toposort_correct:
  assumes "edgesWithin nodes edges"
  shows "(acyclic (set edges) \<longrightarrow>
            (\<exists>S. toposort nodes edges = Some (Inr S) \<and> mset S = mset nodes \<and> inOrder edges S))
       \<and> (\<not> acyclic (set edges) \<longrightarrow> toposort nodes edges = Some (Inl CyclicDependency))"
  using toposort_acyclic [OF assms] toposort_cyclic [OF assms] by blast

text \<open>
  With the nodes A, B, C: the edges C to A and A to B give the order C, A, B; adding the
  edge B to C closes a cycle and the sort throws.
\<close>

theorem toposort_correct_witness:
  "toposort [''A'', ''B'', ''C''] [(''C'', ''A''), (''A'', ''B'')] = Some (Inr [''C'', ''A'', ''B''])
   \<and> toposort [''A'', ''B'', ''C''] [(''C'', ''A''), (''A'', ''B''), (''B'', ''C'')]
       = Some (Inl CyclicDependency)"
proof -
  let ?es = "[(''C'', ''A''), (''A'', ''B''), (''B'', ''C'')]"
  have w: "edgesWithin [''A'', ''B'', ''C''] ?es" by (simp add: edgesWithin_def)
  have "(''A'', ''B'') \<in> set ?es" "(''B'', ''C'') \<in> set ?es" "(''C'', ''A'') \<in> set ?es" by simp_all
  then have "(''A'', ''A'') \<in> (set ?es)\<^sup>+" by (meson trancl.intros)
  then have "\<not> acyclic (set ?es)" unfolding acyclic_def by blast
  with toposort_correct [OF w] have "toposort [''A'', ''B'', ''C''] ?es = Some (Inl CyclicDependency)"
    by blast
  moreover have "toposort [''A'', ''B'', ''C''] [(''C'', ''A''), (''A'', ''B'')]
      = Some (Inr [''C'', ''A'', ''B''])"
    by code_simp
  ultimately show ?thesis by simp
qed

section \<open>Properties of the data shaping\<close>

lemma threeCells_cells:
  assumes "threeCells d"
  obtains c0 c1 c2 where "cellAt d 0 = Inr c0" "cellAt d 1 = Inr c1" "cellAt d 2 = Inr c2"
  using assms by (auto simp: threeCells_def cellAt_def split: list.splits option.splits)

lemma threeCells_length: "threeCells d \<Longrightarrow> length d \<noteq> 2"
  by (auto simp: threeCells_def split: list.splits option.splits)

lemma set_pushNew [simp]: "set (pushNew xs x) = insert x (set xs)"
  by (auto simp: pushNew_def)

lemma distinct_pushNew [simp]: "distinct (pushNew xs x) = distinct xs"
  by (auto simp: pushNew_def)

lemma scanInv_step: "scanInv s \<Longrightarrow> scanInv (scanStep s k1 c2)"
  by (auto simp: scanInv_def scanStep_def)

lemma scanRows_ok:
  "list_all threeCells rows \<Longrightarrow>
   \<exists>s'. scanRows s rows = Inr s'
      \<and> sc_q s' = foldl pushNew (sc_q s) (map (keyText 1) rows)
      \<and> sc_p s' = foldl pushNew (sc_p s) (map (keyText 0) rows)
      \<and> (scanInv s \<longrightarrow> scanInv s')"
proof (induction rows arbitrary: s)
  case Nil
  then show ?case by simp
next
  case (Cons d rows)
  then have t: "threeCells d" and r: "list_all threeCells rows" by simp_all
  from t obtain c0 c1 c2 where c: "cellAt d 0 = Inr c0" "cellAt d 1 = Inr c1" "cellAt d 2 = Inr c2"
    by (rule threeCells_cells)
  from Cons.IH [OF r, of "scanStep s (qText c0) (qText c1)"] c
  show ?case by (auto simp: keyText_def scanStep_def intro: scanInv_step [unfolded scanStep_def])
qed

lemma scanInv_start: "scanInv scanStart"
  by (simp add: scanInv_def scanStart_def)

lemma textEdges_within: "scanInv s \<Longrightarrow> edgesWithin (sc_q s) (textEdges (sc_edges s))"
  by (auto simp: scanInv_def edgesWithin_def textEdges_def split: option.splits)

lemma seriesOrder_ok:
  assumes "scanInv s"
  shows "\<exists>q. seriesOrder s = Some q \<and> mset q = mset (sc_q s)
           \<and> (\<not> acyclic (set (textEdges (sc_edges s))) \<longrightarrow> q = sc_q s)"
proof (cases "acyclic (set (textEdges (sc_edges s)))")
  case True
  from toposort_acyclic [OF textEdges_within [OF assms] True] True show ?thesis
    by (auto simp: seriesOrder_def)
next
  case False
  from toposort_cyclic [OF textEdges_within [OF assms] False] show ?thesis
    by (simp add: seriesOrder_def)
qed

lemma js_sum_snoc: "js_sum (xs @ [x]) = js_add (js_sum xs) x"
  by (simp add: js_sum_def)

lemma finite_ge_iff: "isFinite a \<Longrightarrow> js_ge a (Fin 0) = (\<not> js_lt a (Fin 0))"
  by (cases a) (auto simp: js_ge_def)

lemma filter_ge_finite:
  "list_all (\<lambda>e. isFinite (p_qNum e)) v \<Longrightarrow>
   filter (\<lambda>e. js_ge (p_qNum e) (Fin 0)) v = filter (\<lambda>e. \<not> js_lt (p_qNum e) (Fin 0)) v"
  by (induction v) (auto simp: finite_ge_iff)

lemma stackedUp_snoc:
  assumes s: "stackedUp posT negT v" and f: "list_all (\<lambda>e. isFinite (p_qNum e)) v"
    and n: "isFinite (p_qNum pt)"
    and o: "offset pt = (if js_lt (p_qNum pt) (Fin 0) then negT else posT)"
  shows "stackedUp (if js_lt (p_qNum pt) (Fin 0) then posT else js_add posT (p_qNum pt))
           (if js_lt (p_qNum pt) (Fin 0) then js_add negT (p_qNum pt) else negT) (v @ [pt])"
proof -
  have pos: "posT = js_sum (map p_qNum (filter (\<lambda>e. js_ge (p_qNum e) (Fin 0)) v))"
    and neg: "negT = js_sum (map p_qNum (filter (\<lambda>e. js_lt (p_qNum e) (Fin 0)) v))"
    and off: "\<And>k. k < length v \<Longrightarrow>
        offset (v ! k) = js_sum (map p_qNum (filter (sameSign (v ! k)) (take k v)))"
    using s by (simp_all add: stackedUp_def list_all_iff)
  have last: "offset pt = js_sum (map p_qNum (filter (sameSign pt) v))"
  proof (cases "js_lt (p_qNum pt) (Fin 0)")
    case True
    then have "sameSign pt = (\<lambda>e. js_lt (p_qNum e) (Fin 0))"
      by (auto simp: sameSign_def fun_eq_iff)
    then have "filter (sameSign pt) v = filter (\<lambda>e. js_lt (p_qNum e) (Fin 0)) v"
      by simp
    with True o neg show ?thesis by simp
  next
    case False
    then have "sameSign pt = (\<lambda>e. \<not> js_lt (p_qNum e) (Fin 0))"
      by (auto simp: sameSign_def fun_eq_iff)
    then have "filter (sameSign pt) v = filter (\<lambda>e. \<not> js_lt (p_qNum e) (Fin 0)) v"
      by simp
    with False o pos filter_ge_finite [OF f] show ?thesis by simp
  qed
  have offs: "\<forall>k<length (v @ [pt]).
      offset ((v @ [pt]) ! k) = js_sum (map p_qNum (filter (sameSign ((v @ [pt]) ! k)) (take k (v @ [pt]))))"
  proof (intro allI impI)
    fix k
    assume "k < length (v @ [pt])"
    then consider "k < length v" | "k = length v" by fastforce
    then show "offset ((v @ [pt]) ! k)
        = js_sum (map p_qNum (filter (sameSign ((v @ [pt]) ! k)) (take k (v @ [pt]))))"
    proof cases
      case 1
      with off [OF 1] show ?thesis by (simp add: nth_append)
    next
      case 2
      with last show ?thesis by simp
    qed
  qed
  show ?thesis
  proof (cases "js_lt (p_qNum pt) (Fin 0)")
    case True
    with n have "\<not> js_ge (p_qNum pt) (Fin 0)" by (simp add: finite_ge_iff)
    with True pos neg offs show ?thesis
      unfolding stackedUp_def list_all_iff by (simp add: js_sum_snoc del: upt_Suc)
  next
    case False
    with n have "js_ge (p_qNum pt) (Fin 0)" by (simp add: finite_ge_iff)
    with False pos neg offs show ?thesis
      unfolding stackedUp_def list_all_iff by (simp add: js_sum_snoc del: upt_Suc)
  qed
qed

lemma stack_ok:
  "list_all leafOk leaves \<Longrightarrow>
   \<exists>posT' negT' v'. stack dims qs leaves posT negT v = Inr (posT', negT', v')
     \<and> (stackedUp posT negT v \<and> list_all (\<lambda>e. isFinite (p_qNum e)) v
          \<longrightarrow> stackedUp posT' negT' v' \<and> list_all (\<lambda>e. isFinite (p_qNum e)) v')"
proof (induction dims qs leaves posT negT v rule: stack.induct)
  case (1 dims leaves posT negT v)
  show ?case by simp
next
  case (2 dims qi qs posT negT v)
  then show ?case by simp
next
  case (3 dims qi qs leaf rest posT negT v)
  show ?case
  proof (cases "fst leaf \<noteq> qi")
    case True
    with 3(1) [OF True 3(3)] show ?thesis by simp
  next
    case False
    from 3(3) have lo: "leafOk leaf" and ro: "list_all leafOk rest" by simp_all
    from lo obtain r rs where l: "snd leaf = r # rs" and t: "threeCells r"
      by (auto simp: leafOk_def split: list.splits)
    from t obtain c0 c1 c2 where c: "cellAt r 0 = Inr c0" "cellAt r 1 = Inr c1" "cellAt r 2 = Inr c2"
      by (rule threeCells_cells)
    define c1' where "c1' = (if dims = 2 then c1 else c0)"
    have e: "(if dims = 2 then cellAt r 1 else Inr c0) = Inr c1'" using c by (simp add: c1'_def)
    define num where "num = (if isFinite (qNum c2) then qNum c2 else Fin 0)"
    define elm where "elm = (if dims = 2 then ElemPair (qElemNumber c0) (qElemNumber c1')
                                       else Elem (qElemNumber c0))"
    define t where "t = (if js_lt num (Fin 0) then negT else posT)"
    define pt where "pt = \<lparr> dim1 = [], dim2 = qi, p_qNum = num, p_qText = qText c2,
                                          qTextPct = [], p_qElemNumber = elm, offset = t \<rparr>"
    have fin: "isFinite num" by (simp add: num_def)
    have step: "stack dims (qi # qs) (leaf # rest) posT negT v
        = stack dims qs rest (if js_lt num (Fin 0) then posT else js_add posT num)
            (if js_lt num (Fin 0) then js_add negT num else negT) (v @ [pt])"
      using False l c e by (simp add: Let_def num_def elm_def t_def pt_def)
    from 3(2) [OF _ l c(3) c(1) e refl refl refl ro, of ] False
    obtain posT' negT' v' where
      r: "stack dims qs rest (if js_lt num (Fin 0) then posT else js_add posT num)
            (if js_lt num (Fin 0) then js_add negT num else negT) (v @ [pt]) = Inr (posT', negT', v')"
      and k: "stackedUp (if js_lt num (Fin 0) then posT else js_add posT num)
            (if js_lt num (Fin 0) then js_add negT num else negT) (v @ [pt])
          \<and> list_all (\<lambda>e. isFinite (p_qNum e)) (v @ [pt])
          \<longrightarrow> stackedUp posT' negT' v' \<and> list_all (\<lambda>e. isFinite (p_qNum e)) v'"
      unfolding num_def elm_def t_def pt_def by auto
    have "stackedUp posT negT v \<and> list_all (\<lambda>e. isFinite (p_qNum e)) v
        \<longrightarrow> stackedUp posT' negT' v' \<and> list_all (\<lambda>e. isFinite (p_qNum e)) v'"
    proof
      assume a: "stackedUp posT negT v \<and> list_all (\<lambda>e. isFinite (p_qNum e)) v"
      have pq: "p_qNum pt = num" by (simp add: pt_def)
      have "stackedUp (if js_lt (p_qNum pt) (Fin 0) then posT else js_add posT (p_qNum pt))
           (if js_lt (p_qNum pt) (Fin 0) then js_add negT (p_qNum pt) else negT) (v @ [pt])"
        using a fin by (intro stackedUp_snoc) (simp_all add: pt_def t_def)
      then have "stackedUp (if js_lt num (Fin 0) then posT else js_add posT num)
            (if js_lt num (Fin 0) then js_add negT num else negT) (v @ [pt])"
        by (simp only: pq)
      moreover have "list_all (\<lambda>e. isFinite (p_qNum e)) (v @ [pt])"
        using a fin by (simp add: pt_def)
      ultimately show "stackedUp posT' negT' v' \<and> list_all (\<lambda>e. isFinite (p_qNum e)) v'"
        using k by blast
    qed
    with step r show ?thesis by simp
  qed
qed

lemma pairDeltas_zip: "pairDeltas p c = map (\<lambda>pk. mkDelta (fst pk) (snd pk)) (zip p c)"
proof (induction p arbitrary: c)
  case Nil
  show ?case by (simp add: pairDeltas_def)
next
  case (Cons a p)
  have u: "[0..<length (a # p)] = 0 # map Suc [0..<length p]"
    by (simp add: upt_conv_Cons map_Suc_upt del: upt_Suc)
  show ?case
  proof (cases c)
    case Nil
    have "concat (map (\<lambda>k. []) [0..<length (a # p)]) = ([] :: delta list)"
      by (induction "[0..<length (a # p)]") auto
    with Nil show ?thesis by (simp add: pairDeltas_def del: upt_Suc)
  next
    case (Cons b c')
    have "pairDeltas (a # p) (b # c') = mkDelta a b # pairDeltas p c'"
      unfolding pairDeltas_def u by (simp add: comp_def del: upt_Suc cong: if_cong)
    with Cons.IH [of c'] Cons show ?thesis by simp
  qed
qed

lemma set_foldl_pushNew: "set (foldl pushNew acc xs) = set acc \<union> set xs"
  by (induction xs arbitrary: acc) auto

lemma distinct_foldl_pushNew: "distinct acc \<Longrightarrow> distinct (foldl pushNew acc xs)"
  by (induction xs arbitrary: acc) auto

lemma nest_leaves:
  assumes "list_all P rows" "leaf \<in> set (nest f rows)"
  shows "snd leaf \<noteq> [] \<and> list_all P (snd leaf) \<and> snd leaf = filter (\<lambda>d. f d = fst leaf) rows"
proof -
  from assms(2) obtain k where k: "k \<in> set (map f rows)" and l: "leaf = (k, filter (\<lambda>d. f d = k) rows)"
    by (auto simp: nest_def set_foldl_pushNew)
  from k have "filter (\<lambda>d. f d = k) rows \<noteq> []" by (auto simp: filter_empty_conv)
  moreover from assms(1) have "list_all P (filter (\<lambda>d. f d = k) rows)" by (auto simp: list_all_iff)
  ultimately show ?thesis using l by simp
qed

lemma nested_groups:
  assumes "d \<in> set (nested p q rows)"
  shows "snd d = sort_key (\<lambda>a. indexOf q (fst a)) (nest (keyText 1) (filter (\<lambda>r. keyText 0 r = fst d) rows))
         \<and> fst d \<in> set (map (keyText 0) rows)"
proof -
  from assms obtain e where e: "e \<in> set (nest (keyText 0) rows)"
    and d: "d = (fst e, sort_key (\<lambda>a. indexOf q (fst a)) (nest (keyText 1) (snd e)))"
    by (auto simp: nested_def)
  from e obtain k where "k \<in> set (map (keyText 0) rows)" "e = (k, filter (\<lambda>r. keyText 0 r = k) rows)"
    by (auto simp: nest_def set_foldl_pushNew)
  with d show ?thesis by simp
qed

lemma nested_leafOk:
  assumes "list_all threeCells rows" "d \<in> set (nested p q rows)"
  shows "list_all leafOk (snd d)"
proof -
  let ?rows = "filter (\<lambda>r. keyText 0 r = fst d) rows"
  have t: "list_all threeCells ?rows" using assms(1) by (auto simp: list_all_iff)
  have "leafOk leaf" if "leaf \<in> set (nest (keyText 1) ?rows)" for leaf
  proof -
    from nest_leaves [OF t that] have ne: "snd leaf \<noteq> []" and al: "list_all threeCells (snd leaf)"
      by blast+
    from ne obtain r rs where rr: "snd leaf = r # rs" by (cases "snd leaf") auto
    with al have "threeCells r" by simp
    with rr show ?thesis by (simp add: leafOk_def)
  qed
  with nested_groups [OF assms(2)] show ?thesis by (simp add: list_all_iff)
qed

lemma stacked_eq:
  assumes "list_all leafOk leaves"
  shows "stack dims q leaves (Fin 0) (Fin 0) [] = Inr (stacked dims q leaves)"
  using stack_ok [OF assms, of dims q "Fin 0" "Fin 0" "[]"] by (auto simp: stacked_def)

lemma pointsOf_groupOf:
  "pointsOf (groupOf g q d) =
     (case stacked (defDims g) q (snd d) of (posT, negT, v0) \<Rightarrow> map (finishPoint g (fst d) posT negT) v0)"
  by (simp add: groupOf_def pointsOf_def split: prod.splits)

lemma deltasOf_Cons2:
  "deltasOf (a # b # gs) = pairDeltas (pointsOf a) (pointsOf b) @ deltasOf (b # gs)"
  by (simp add: deltasOf_def adjacent_def pairDeltas_zip)

lemma deltasOf_single [simp]: "deltasOf [a] = []"
  by (simp add: deltasOf_def adjacent_def)

lemma buildGroups_eq:
  "list_all (\<lambda>d. list_all leafOk (snd d)) ds \<Longrightarrow>
   buildGroups g q ds struc flat dl =
     Inr (struc @ map (groupOf g q) ds,
          flat @ concat (map (\<lambda>d. pointsOf (groupOf g q d)) ds),
          dl @ (if showDeltas g
                then deltasOf ((if struc = [] then [] else [last struc]) @ map (groupOf g q) ds)
                else []))"
proof (induction ds arbitrary: struc flat dl)
  case Nil
  then show ?case by (simp add: deltasOf_def adjacent_def)
next
  case (Cons d ds)
  then have l: "list_all leafOk (snd d)" and r: "list_all (\<lambda>d. list_all leafOk (snd d)) ds"
    by simp_all
  obtain posT negT v0 where s: "stacked (defDims g) q (snd d) = (posT, negT, v0)"
    by (cases "stacked (defDims g) q (snd d)")
  have st: "stack (defDims g) q (snd d) (Fin 0) (Fin 0) [] = Inr (posT, negT, v0)"
    using stacked_eq [OF l, of "defDims g" q] s by simp
  define V where "V = map (finishPoint g (fst d) posT negT) v0"
  define R where "R = \<lparr> dim1 = fst d, offsetPos = posT, offsetNeg = negT, values = Some V \<rparr>"
  have GR: "R = groupOf g q d" by (simp add: groupOf_def s R_def V_def)
  have PV: "V = pointsOf (groupOf g q d)" by (simp add: pointsOf_groupOf s V_def)
  have pl: "(case values (last struc) of Some pv \<Rightarrow> pv | None \<Rightarrow> []) = pointsOf (last struc)"
    by (simp add: pointsOf_def)
  have "buildGroups g q (d # ds) struc flat dl
      = buildGroups g q ds (struc @ [R]) (flat @ V)
          (if struc \<noteq> [] \<and> showDeltas g
           then dl @ pairDeltas (pointsOf (last struc)) V else dl)"
    by (simp add: st Let_def pl R_def V_def)
  then have step: "buildGroups g q (d # ds) struc flat dl
      = buildGroups g q ds (struc @ [groupOf g q d]) (flat @ pointsOf (groupOf g q d))
          (if struc \<noteq> [] \<and> showDeltas g
           then dl @ pairDeltas (pointsOf (last struc)) (pointsOf (groupOf g q d)) else dl)"
    unfolding GR PV .
  show ?case
    unfolding step Cons.IH [OF r]
    by (cases "map (groupOf g q) ds") (auto simp: deltasOf_Cons2)
qed

lemma foldl_pushNew_firstEncounter:
  "foldl pushNew acc xs = acc @ filter (\<lambda>y. y \<notin> set acc) (firstEncounter xs)"
proof (induction xs arbitrary: acc)
  case Nil
  show ?case by simp
next
  case (Cons x xs)
  show ?case
  proof (cases "x \<in> set acc")
    case True
    then have "filter (\<lambda>y. y \<notin> set acc) (filter (\<lambda>y. y \<noteq> x) (firstEncounter xs))
        = filter (\<lambda>y. y \<notin> set acc) (firstEncounter xs)"
      by (auto intro: filter_cong)
    with True Cons [of acc] show ?thesis by (simp add: pushNew_def)
  next
    case False
    then have "filter (\<lambda>y. y \<notin> set (acc @ [x])) (firstEncounter xs)
        = filter (\<lambda>y. y \<notin> set acc) (filter (\<lambda>y. y \<noteq> x) (firstEncounter xs))"
      by (auto intro: filter_cong)
    with False Cons [of "acc @ [x]"] show ?thesis by (simp add: pushNew_def)
  qed
qed

lemma initData_twoDim:
  assumes "twoDimInput g"
  shows "\<exists>s q. scanRows scanStart (inDataOf g) = Inr s \<and> scanInv s
     \<and> sc_q s = foldl pushNew [] (map (keyText 1) (inDataOf g))
     \<and> sc_p s = foldl pushNew [] (map (keyText 0) (inDataOf g))
     \<and> seriesOrder s = Some q \<and> mset q = mset (sc_q s)
     \<and> (\<not> acyclic (set (textEdges (sc_edges s))) \<longrightarrow> q = sc_q s)
     \<and> initData g = Some (Inr (shaped g s q))"
proof -
  from assms obtain r0 rs where raw: "rawData g = r0 # rs" and w: "defDims g + defMeas g = length r0"
    by (cases "rawData g") (auto simp: twoDimInput_def)
  from assms obtain d0 ds where ind: "inDataOf g = d0 # ds"
    by (cases "inDataOf g") (auto simp: twoDimInput_def)
  from assms have all: "list_all threeCells (inDataOf g)" by (simp add: twoDimInput_def)
  with ind have "threeCells d0" by simp
  then have l2: "length d0 \<noteq> 2" by (rule threeCells_length)
  from scanRows_ok [OF all, of scanStart] scanInv_start obtain s where
    s: "scanRows scanStart (inDataOf g) = Inr s" "scanInv s"
    "sc_q s = foldl pushNew [] (map (keyText 1) (inDataOf g))"
    "sc_p s = foldl pushNew [] (map (keyText 0) (inDataOf g))"
    by (auto simp: scanStart_def)
  from seriesOrder_ok [OF s(2)] obtain q where
    q: "seriesOrder s = Some q" "mset q = mset (sc_q s)"
    "\<not> acyclic (set (textEdges (sc_edges s))) \<longrightarrow> q = sc_q s"
    by blast
  let ?n = "nested (sc_p s) q (inDataOf g)"
  have "list_all (\<lambda>d. list_all leafOk (snd d)) ?n"
    using nested_leafOk [OF all] by (simp add: list_all_iff)
  from buildGroups_eq [OF this, of g q "[]" "[]" "[]"]
  have b: "buildGroups g q ?n [] [] [] =
     Inr (map (groupOf g q) ?n, concat (map (\<lambda>d. pointsOf (groupOf g q d)) ?n),
          (if showDeltas g then deltasOf (map (groupOf g q) ?n) else []))"
    by simp
  have "initData2 g (inDataOf g) = Some (Inr (shaped g s q))"
    unfolding initData2_def s(1) by (simp add: q(1) b shaped_def)
  then have "initData g = Some (Inr (shaped g s q))"
    unfolding initData_def raw using w l2 by (simp add: ind [symmetric]) (simp add: ind)
  with s q show ?thesis by blast
qed

lemma stackedUp_map:
  assumes "\<And>e. p_qNum (f e) = p_qNum e" "\<And>e. offset (f e) = offset e"
  shows "stackedUp a b (map f v) = stackedUp a b v"
proof -
  have 1: "map p_qNum (filter P' (map f xs)) = map p_qNum (filter (P' \<circ> f) xs)" for P' xs
    by (simp add: filter_map comp_def assms(1))
  have 2: "(\<lambda>e. js_ge (p_qNum e) (Fin 0)) \<circ> f = (\<lambda>e. js_ge (p_qNum e) (Fin 0))"
    "(\<lambda>e. js_lt (p_qNum e) (Fin 0)) \<circ> f = (\<lambda>e. js_lt (p_qNum e) (Fin 0))"
    "sameSign (f x) \<circ> f = sameSign x" for x
    by (auto simp: comp_def sameSign_def assms(1))
  have 3: "map p_qNum (filter (sameSign (map f v ! k)) (take k (map f v)))
      = map p_qNum (filter (sameSign (v ! k)) (take k v))" if "k < length v" for k
    using that by (simp only: take_map 1 2 nth_map)
  have 4: "offset (map f v ! k) = offset (v ! k)" if "k < length v" for k
    using that by (simp add: assms(2))
  show ?thesis
    unfolding stackedUp_def list_all_iff 1 2 using 3 4 by auto
qed

lemma stacked_stackedUp:
  assumes "list_all leafOk leaves" "stacked dims q leaves = (posT, negT, v0)"
  shows "stackedUp posT negT v0 \<and> list_all (\<lambda>e. isFinite (p_qNum e)) v0"
proof -
  have "stackedUp (Fin 0) (Fin 0) []" by (simp add: stackedUp_def js_sum_def js_ge_def)
  with stack_ok [OF assms(1), of dims q "Fin 0" "Fin 0" "[]"] assms(2)
  show ?thesis by (auto simp: stacked_def)
qed

lemma groupOf_stackedUp:
  assumes "list_all leafOk (snd d)" "\<not> normalized g"
  shows "stackedUp (offsetPos (groupOf g q d)) (offsetNeg (groupOf g q d)) (pointsOf (groupOf g q d))"
proof -
  obtain posT negT v0 where s: "stacked (defDims g) q (snd d) = (posT, negT, v0)"
    by (cases "stacked (defDims g) q (snd d)")
  from stacked_stackedUp [OF assms(1) s] have "stackedUp posT negT v0" by simp
  moreover have "stackedUp posT negT (map (finishPoint g (fst d) posT negT) v0) = stackedUp posT negT v0"
    using assms(2) by (intro stackedUp_map) (simp_all add: finishPoint_def)
  ultimately show ?thesis by (simp add: groupOf_def s pointsOf_def)
qed

text \<open>
  C1 (as amended).  For every two-dimensional input with \<open>normalized\<close> off, \<open>initData\<close>
  returns a model in which every group satisfies the stack invariant: the values \<open>>= 0\<close>
  of its points add up to its \<open>offsetPos\<close>, the values \<open>< 0\<close> to its \<open>offsetNeg\<close>, and the
  offset of each point is the running total of its own sign before the point.
\<close>

theorem initData_stack_invariant:
  assumes "twoDimInput g" and "\<not> normalized g"
  shows "\<exists>g'. initData g = Some (Inr g')
            \<and> (\<forall>d\<in>set (data g'). stackedUp (offsetPos d) (offsetNeg d) (pointsOf d))"
proof -
  from assms(1) have all: "list_all threeCells (inDataOf g)" by (simp add: twoDimInput_def)
  from initData_twoDim [OF assms(1)] obtain s q where
    i: "initData g = Some (Inr (shaped g s q))"
    by blast
  have "stackedUp (offsetPos (groupOf g q d)) (offsetNeg (groupOf g q d)) (pointsOf (groupOf g q d))"
    if "d \<in> set (nested (sc_p s) q (inDataOf g))" for d
    using nested_leafOk [OF all that] assms(2) by (rule groupOf_stackedUp)
  with i show ?thesis by (simp add: shaped_def)
qed

text \<open>
  The delta loop on every two-dimensional input with \<open>showDeltas\<close> on: the records are
  those between each group after the first and its immediate predecessor, one for each
  position that both values arrays have, and the \<open>delta\<close> field of each is the value at
  that position of the current group minus the value at that position of the previous
  group.  The position of a point in a values array is the position of its series in the
  canonical order only when no earlier series lacks a row in the group.
\<close>

lemma initData_deltas_by_position:
  assumes "twoDimInput g" and "showDeltas g"
  shows "\<exists>g'. initData g = Some (Inr g') \<and> deltas g' = deltasOf (data g')
            \<and> map delta (deltas g')
                = concat (map (\<lambda>pc. map (\<lambda>pk. js_sub (p_qNum (snd pk)) (p_qNum (fst pk)))
                                       (zip (pointsOf (fst pc)) (pointsOf (snd pc))))
                            (adjacent (data g')))"
proof -
  from initData_twoDim [OF assms(1)] obtain s q where
    i: "initData g = Some (Inr (shaped g s q))"
    by blast
  have "map delta (deltasOf gs)
      = concat (map (\<lambda>pc. map (\<lambda>pk. js_sub (p_qNum (snd pk)) (p_qNum (fst pk)))
                                       (zip (pointsOf (fst pc)) (pointsOf (snd pc))))
                            (adjacent gs))" for gs
    by (simp add: deltasOf_def map_concat comp_def mkDelta_def)
  with i assms(2) show ?thesis by (simp add: shaped_def)
qed

text \<open>
  C5.  For every two-dimensional input whose observed edges contain a cycle, \<open>initData\<close>
  returns a model (it does not throw) whose \<open>allDim2\<close> is the order of first occurrence of
  the second dimension texts.
\<close>

theorem initData_cycle_fallback:
  assumes "twoDimInput g" and "\<not> acyclic (set (observedEdges g))"
  shows "\<exists>g'. initData g = Some (Inr g')
            \<and> allDim2 g' = firstEncounter (map (keyText 1) (inDataOf g))"
proof -
  from initData_twoDim [OF assms(1)] obtain s q where
    s: "scanRows scanStart (inDataOf g) = Inr s"
    and sq: "sc_q s = foldl pushNew [] (map (keyText 1) (inDataOf g))"
    and c: "\<not> acyclic (set (textEdges (sc_edges s))) \<longrightarrow> q = sc_q s"
    and i: "initData g = Some (Inr (shaped g s q))"
    by blast
  from assms(2) s have "\<not> acyclic (set (textEdges (sc_edges s)))" by (simp add: observedEdges_def)
  with c sq have "q = firstEncounter (map (keyText 1) (inDataOf g))"
    by (simp add: foldl_pushNew_firstEncounter)
  with i show ?thesis by (simp add: shaped_def)
qed

text \<open>
  C7 (as amended).  When there are no raw rows, or the configured numbers of dimensions
  and measures do not add up to the width of the first raw row, \<open>initData\<close> returns
  without throwing and leaves the chart object, and so its model, as it was.
\<close>

theorem initData_rejects:
  assumes "rawData g = [] \<or> defDims g + defMeas g \<noteq> length (hd (rawData g))"
  shows "initData g = Some (Inr g)"
  using assms by (cases "rawData g") (auto simp: initData_def)

section \<open>The claims on sample inputs\<close>

text \<open>
  On the rows with a missing series and \<open>normalized\<close> off, the model has the groups
  Q1 (East 100 at offset 0, West 50 at offset 100, top 150) and Q2 (West 70 at offset 0),
  and every group satisfies the stack invariant.
\<close>

theorem initData_stack_invariant_witness:
  "twoDimInput chartMissing \<and> \<not> normalized chartMissing
   \<and> (\<exists>g'. initData chartMissing = Some (Inr g')
         \<and> map groupOutline (data g')
             = [(''Q1'', Fin 150, Fin 0, [(''East'', Fin 100, Fin 0), (''West'', Fin 50, Fin 100)]),
                (''Q2'', Fin 70, Fin 0, [(''West'', Fin 70, Fin 0)])]
         \<and> list_all (\<lambda>d. stackedUp (offsetPos d) (offsetNeg d) (pointsOf d)) (data g'))"
proof -
  have t: "twoDimInput chartMissing" by code_simp
  have n: "\<not> normalized chartMissing" by code_simp
  have e: "map_option (map_sum id (\<lambda>g. map groupOutline (data g))) (initData chartMissing)
      = Some (Inr [(''Q1'', Fin 150, Fin 0, [(''East'', Fin 100, Fin 0), (''West'', Fin 50, Fin 100)]),
                   (''Q2'', Fin 70, Fin 0, [(''West'', Fin 70, Fin 0)])])"
    by code_simp
  from initData_stack_invariant [OF t n] obtain g' where
    i: "initData chartMissing = Some (Inr g')"
    and s: "\<forall>d\<in>set (data g'). stackedUp (offsetPos d) (offsetNeg d) (pointsOf d)"
    by (elim exE conjE)
  from e i have m: "map groupOutline (data g')
      = [(''Q1'', Fin 150, Fin 0, [(''East'', Fin 100, Fin 0), (''West'', Fin 50, Fin 100)]),
         (''Q2'', Fin 70, Fin 0, [(''West'', Fin 70, Fin 0)])]"
    by simp
  from s have l: "list_all (\<lambda>d. stackedUp (offsetPos d) (offsetNeg d) (pointsOf d)) (data g')"
    by (simp add: list_all_iff)
  show ?thesis by (intro conjI exI [of _ g']) (rule t n i m l)+
qed

text \<open>
  With \<open>normalized\<close> on, the same rows give values 2/3 and 1/3 in the group Q1, whose
  \<open>offsetPos\<close> stays 150: the stack invariant of C1 as stated does not hold.
\<close>

theorem initData_stack_invariant_counterexample:
  "twoDimInput chartNormalized
   \<and> map_option (map_sum id (\<lambda>g. map groupOutline (data g))) (initData chartNormalized)
       = Some (Inr [(''Q1'', Fin 150, Fin 0, [(''East'', Fin (2 / 3), Fin 0), (''West'', Fin (1 / 3), Fin (2 / 3))]),
                    (''Q2'', Fin 70, Fin 0, [(''West'', Fin 1, Fin 0)])])
   \<and> map_option (map_sum id (\<lambda>g. list_all (\<lambda>d. stackedUp (offsetPos d) (offsetNeg d) (pointsOf d)) (data g)))
        (initData chartNormalized) = Some (Inr False)"
  by code_simp

text \<open>
  C3, at the rows with a missing series (Q1: East 100, West 50; Q2: West 70).  The claim
  pairs the slots of a series and skips a pair with a missing slot: West, which both
  groups have, is to give a record with delta 20, and East, which Q2 lacks, none.
  \<open>initData\<close> returns the opposite.  The values of Q2 hold no slot for East, so position
  0 of Q1 (East, 100) meets position 0 of Q2 (West, 70): the only record is labelled East,
  with delta -30, and West has no record.
\<close>

theorem initData_deltas_misaligned:
  "twoDimInput chartMissing \<and> showDeltas chartMissing
   \<and> map_option (map_sum id (\<lambda>g.
          (map (\<lambda>d. (dim1 d, map (\<lambda>e. (dim2 e, p_qNum e)) (pointsOf d))) (data g),
           map (\<lambda>x. (dim1p x, dim1c x, d_dim2 x, delta x, points x)) (deltas g))))
        (initData chartMissing)
       = Some (Inr ([(''Q1'', [(''East'', Fin 100), (''West'', Fin 50)]), (''Q2'', [(''West'', Fin 70)])],
                    [(''Q1'', ''Q2'', ''East'', Fin (- 30), [Fin 0, Fin 0, Fin 100, Fin 70])]))"
  by code_simp

text \<open>
  The rows of \<open>rowsCycle\<close> give the edges A to B and B to A; \<open>initData\<close> returns a model
  whose series order is A, B.
\<close>

theorem initData_cycle_fallback_witness:
  "twoDimInput chartCycle \<and> observedEdges chartCycle = [(''A'', ''B''), (''B'', ''A'')]
   \<and> (\<exists>g'. initData chartCycle = Some (Inr g') \<and> allDim2 g' = [''A'', ''B''])"
proof -
  have t: "twoDimInput chartCycle" by code_simp
  have o: "observedEdges chartCycle = [(''A'', ''B''), (''B'', ''A'')]" by code_simp
  have "(''A'', ''B'') \<in> set (observedEdges chartCycle)" "(''B'', ''A'') \<in> set (observedEdges chartCycle)"
    by (simp_all add: o)
  then have "(''A'', ''A'') \<in> (set (observedEdges chartCycle))\<^sup>+" by (meson trancl.intros)
  then have c: "\<not> acyclic (set (observedEdges chartCycle))" unfolding acyclic_def by blast
  have f: "firstEncounter (map (keyText 1) (inDataOf chartCycle)) = [''A'', ''B'']" by code_simp
  from initData_cycle_fallback [OF t c] obtain g' where
    i: "initData chartCycle = Some (Inr g')"
    and a: "allDim2 g' = firstEncounter (map (keyText 1) (inDataOf chartCycle))"
    by (elim exE conjE)
  from a f have a': "allDim2 g' = [''A'', ''B'']" by simp
  show ?thesis by (intro conjI exI [of _ g']) (rule t o i a')+
qed

text \<open>
  The sample chart has no rows and is returned as it is; so is the chart whose two
  dimensions and two configured measures do not match rows of width three.
\<close>

theorem initData_rejects_witness:
  "rawData sampleChart = [] \<and> initData sampleChart = Some (Inr sampleChart)
   \<and> defDims (chartMissing \<lparr> defMeas := 2 \<rparr>) + defMeas (chartMissing \<lparr> defMeas := 2 \<rparr>)
       \<noteq> length (hd (rawData (chartMissing \<lparr> defMeas := 2 \<rparr>)))
   \<and> initData (chartMissing \<lparr> defMeas := 2 \<rparr>) = Some (Inr (chartMissing \<lparr> defMeas := 2 \<rparr>))"
proof -
  have a: "rawData sampleChart = []" by (simp add: sampleChart_def)
  have b: "defDims (chartMissing \<lparr> defMeas := 2 \<rparr>) + defMeas (chartMissing \<lparr> defMeas := 2 \<rparr>)
       \<noteq> length (hd (rawData (chartMissing \<lparr> defMeas := 2 \<rparr>)))"
    by (simp add: chartMissing_def sampleChart_def rowsMissing_def)
  have c: "initData sampleChart = Some (Inr sampleChart)"
    using a by (intro initData_rejects) simp
  have d: "initData (chartMissing \<lparr> defMeas := 2 \<rparr>) = Some (Inr (chartMissing \<lparr> defMeas := 2 \<rparr>))"
    using b by (intro initData_rejects) simp
  show ?thesis by (intro conjI) (rule a b c d)+
qed

text \<open>
  A chart that holds two groups from an earlier delivery and receives no rows still
  holds them after \<open>initData\<close>: the model is not empty.
\<close>

theorem initData_rejects_counterexample:
  "rawData chartStale = []
   \<and> (\<exists>g'. initData chartStale = Some (Inr g') \<and> map dim1 (data g') = [''Q1'', ''Q2''])"
proof -
  have a: "rawData chartStale = []" by (simp add: chartStale_def sampleChart_def)
  then have b: "initData chartStale = Some (Inr chartStale)" by (simp add: initData_def)
  have c: "map dim1 (data chartStale) = [''Q1'', ''Q2'']"
    by (simp add: chartStale_def sampleData_def)
  show ?thesis by (intro conjI exI [of _ chartStale]) (rule a b c)+
qed

section \<open>Series without a row in a group\<close>

lemma indexOf_inj: "inj_on (indexOf q) (set q)"
proof (rule inj_onI)
  fix x y
  assume x: "x \<in> set q" and y: "y \<in> set q" and e: "indexOf q x = indexOf q y"
  have "x = q ! nat (indexOf q x)" by (rule indexOf_nth(3) [OF x, symmetric])
  also have "\<dots> = q ! nat (indexOf q y)" by (simp only: e)
  also have "\<dots> = y" by (rule indexOf_nth(3) [OF y])
  finally show "x = y" .
qed

lemma indexOf_position:
  assumes "distinct q" "i < length q"
  shows "indexOf q (q ! i) = int i"
proof -
  have "takeWhile (\<lambda>y. y \<noteq> q ! i) q = take i q"
  proof (rule takeWhile_eq_take_P_nth)
    fix j
    assume "j < i" "j < length q"
    with assms show "q ! j \<noteq> q ! i" by (simp add: nth_eq_iff_index_eq)
  next
    show "\<not> q ! i \<noteq> q ! i" by simp
  qed
  with assms show ?thesis by (simp add: indexOf_def)
qed

lemma indexOf_sorted: "distinct q \<Longrightarrow> sorted (map (indexOf q) q)"
proof -
  assume d: "distinct q"
  have "map (indexOf q) q = map int [0..<length q]"
    by (rule nth_equalityI) (simp_all add: indexOf_position [OF d])
  moreover have "sorted (map int [0..<length q])"
    by (simp add: sorted_map sorted_wrt_iff_nth_less)
  ultimately show ?thesis by simp
qed

lemma sort_by_position:
  assumes dx: "distinct (map fst xs)" and sub: "set (map fst xs) \<subseteq> set q" and dq: "distinct q"
  shows "map fst (sort_key (\<lambda>a. indexOf q (fst a)) xs) = filter (\<lambda>k. k \<in> set (map fst xs)) q"
proof -
  let ?f = "indexOf q"
  let ?L1 = "map fst (sort_key (\<lambda>a. ?f (fst a)) xs)"
  let ?L2 = "filter (\<lambda>k. k \<in> set (map fst xs)) q"
  have m1: "mset ?L1 = mset (map fst xs)" by simp
  then have s1: "set ?L1 = set (map fst xs)" by (rule mset_eq_setD)
  from m1 dx have d1: "distinct ?L1" by (metis mset_eq_imp_distinct_iff)
  have s2: "set ?L2 = set (map fst xs)" using sub by auto
  have d2: "distinct ?L2" using dq by simp
  have inj1: "inj_on ?f (set ?L1)" using s1 sub by (intro inj_on_subset [OF indexOf_inj]) simp
  have inj2: "inj_on ?f (set ?L2)" by (intro inj_on_subset [OF indexOf_inj]) auto
  have "map ?f ?L1 = map (\<lambda>a. ?f (fst a)) (sort_key (\<lambda>a. ?f (fst a)) xs)" by (simp add: comp_def)
  then have so1: "sorted (map ?f ?L1)" by (simp only: sorted_sort_key)
  have so2: "sorted (map ?f ?L2)" using indexOf_sorted [OF dq] by (rule sorted_filter)
  have "map ?f ?L1 = map ?f ?L2"
  proof (rule sorted_distinct_set_unique)
    show "sorted (map ?f ?L1)" by (rule so1)
    show "distinct (map ?f ?L1)" by (rule iffD2 [OF distinct_map]) (rule conjI [OF d1 inj1])
    show "sorted (map ?f ?L2)" by (rule so2)
    show "distinct (map ?f ?L2)" by (rule iffD2 [OF distinct_map]) (rule conjI [OF d2 inj2])
    have "set ?L1 = set ?L2" by (rule trans [OF s1 s2 [symmetric]])
    then have "?f ` set ?L1 = ?f ` set ?L2" by (rule arg_cong)
    then show "set (map ?f ?L1) = set (map ?f ?L2)" by (subst (1 2) set_map)
  qed
  moreover have "inj_on ?f (set ?L1 \<union> set ?L2)"
    using s1 s2 sub by (intro inj_on_subset [OF indexOf_inj]) auto
  ultimately show ?thesis by (simp only: inj_on_map_eq_map)
qed

lemma nest_keys: "map fst (nest f rows) = foldl pushNew [] (map f rows)"
  by (simp add: nest_def comp_def)

lemma stack_series:
  "stack dims qs leaves posT negT v = Inr (a, b, v') \<Longrightarrow> distinct qs \<Longrightarrow>
   map fst leaves = filter P qs \<Longrightarrow> map dim2 v' = map dim2 v @ map fst leaves"
proof (induction dims qs leaves posT negT v rule: stack.induct)
  case (1 dims leaves posT negT v)
  then show ?case by simp
next
  case (2 dims qi qs posT negT v)
  then show ?case by (simp split: if_splits)
next
  case (3 dims qi qs leaf rest posT negT v)
  show ?case
  proof (cases "fst leaf \<noteq> qi")
    case True
    from 3(5) True have "\<not> P qi" by auto
    with 3(5) have f: "map fst (leaf # rest) = filter P qs" by simp
    from 3(3) True have "stack dims qs (leaf # rest) posT negT v = Inr (a, b, v')" by simp
    from 3(1) [OF True this _ f] 3(4) show ?thesis by simp
  next
    case False
    then have q: "fst leaf = qi" by simp
    have "P qi"
    proof (rule ccontr)
      assume "\<not> P qi"
      with 3(5) have "fst leaf \<in> set (filter P qs)" by (metis list.set_intros(1) list.simps(9) filter.simps(2))
      with q 3(4) show False by simp
    qed
    with 3(5) q have f: "map fst rest = filter P qs" by simp
    from 3(3) False obtain r rs c2 c0 c1 where
      l: "snd leaf = r # rs" and c: "cellAt r 2 = Inr c2" "cellAt r 0 = Inr c0"
      "(if dims = 2 then cellAt r 1 else Inr c0) = Inr c1"
      by (auto split: list.splits sum.splits)
    define num where "num = (if isFinite (qNum c2) then qNum c2 else Fin 0)"
    define pt where "pt = \<lparr> dim1 = [], dim2 = qi, p_qNum = num, p_qText = qText c2, qTextPct = [],
        p_qElemNumber = (if dims = 2 then ElemPair (qElemNumber c0) (qElemNumber c1)
                                       else Elem (qElemNumber c0)),
        offset = (if js_lt num (Fin 0) then negT else posT) \<rparr>"
    have step: "stack dims (qi # qs) (leaf # rest) posT negT v
        = stack dims qs rest (if js_lt num (Fin 0) then posT else js_add posT num)
            (if js_lt num (Fin 0) then js_add negT num else negT) (v @ [pt])"
      using False l c by (simp add: Let_def num_def pt_def)
    from 3(3) have r: "stack dims qs rest (if js_lt num (Fin 0) then posT else js_add posT num)
            (if js_lt num (Fin 0) then js_add negT num else negT) (v @ [pt]) = Inr (a, b, v')"
      by (simp only: step)
    from 3(2) [OF _ l c(1) c(2) c(3) refl refl refl r [unfolded num_def pt_def] _ f] False 3(4)
    have "map dim2 v' = map dim2 (v @ [pt]) @ map fst rest" by (simp add: pt_def num_def)
    with q show ?thesis by (simp add: pt_def)
  qed
qed

lemma dim2_finishPoint [simp]: "dim2 (finishPoint g k posT negT e) = dim2 e"
  by (simp add: finishPoint_def Let_def)

lemma groupOf_series:
  assumes "list_all leafOk (snd d)" "distinct q" "map fst (snd d) = filter P q"
  shows "map dim2 (pointsOf (groupOf g q d)) = map fst (snd d)"
proof -
  obtain posT negT v0 where s: "stacked (defDims g) q (snd d) = (posT, negT, v0)"
    by (cases "stacked (defDims g) q (snd d)")
  with stacked_eq [OF assms(1), of "defDims g" q]
  have "stack (defDims g) q (snd d) (Fin 0) (Fin 0) [] = Inr (posT, negT, v0)" by simp
  from stack_series [OF this assms(2,3)] have "map dim2 v0 = map fst (snd d)" by simp
  then show ?thesis by (simp add: pointsOf_groupOf s comp_def)
qed

lemma dim1_groupOf [simp]: "dim1 (groupOf g q d) = fst d"
  by (simp add: groupOf_def split: prod.splits)

text \<open>
  The stacking loop on every two-dimensional input: the values of every group of the
  model hold one point for each series of the canonical order that has a row in the
  group, in canonical order, and nothing else.  The branch for a series without a row
  assigns \<open>num = 0\<close>, \<open>txt = "-"\<close> and \<open>elm = []\<close> and pushes no point.
\<close>

lemma initData_series_present:
  assumes "twoDimInput g"
  shows "\<exists>g'. initData g = Some (Inr g')
     \<and> (\<forall>d\<in>set (data g').
           map dim2 (pointsOf d)
             = filter (\<lambda>k. \<exists>r\<in>set (inDataOf g). keyText 0 r = dim1 d \<and> keyText 1 r = k) (allDim2 g'))"
proof -
  from assms have all: "list_all threeCells (inDataOf g)" by (simp add: twoDimInput_def)
  from initData_twoDim [OF assms] obtain s q where
    inv: "scanInv s"
    and sq: "sc_q s = foldl pushNew [] (map (keyText 1) (inDataOf g))"
    and m: "mset q = mset (sc_q s)"
    and i: "initData g = Some (Inr (shaped g s q))"
    by (elim exE conjE)
  from inv have "distinct (sc_q s)" by (simp add: scanInv_def)
  with m have dq: "distinct q" by (metis mset_eq_imp_distinct_iff)
  from m have "set q = set (sc_q s)" by (rule mset_eq_setD)
  with sq have setq: "set q = set (map (keyText 1) (inDataOf g))" by (simp add: set_foldl_pushNew)
  have "map dim2 (pointsOf (groupOf g q d))
      = filter (\<lambda>k. \<exists>r\<in>set (inDataOf g). keyText 0 r = dim1 (groupOf g q d) \<and> keyText 1 r = k) q"
    if d: "d \<in> set (nested (sc_p s) q (inDataOf g))" for d
  proof -
    let ?rows = "filter (\<lambda>r. keyText 0 r = fst d) (inDataOf g)"
    let ?xs = "nest (keyText 1) ?rows"
    from nested_groups [OF d] have sd: "snd d = sort_key (\<lambda>a. indexOf q (fst a)) ?xs" by simp
    have k: "map fst ?xs = foldl pushNew [] (map (keyText 1) ?rows)" by (rule nest_keys)
    then have dx: "distinct (map fst ?xs)" by (simp add: distinct_foldl_pushNew)
    from k have sx: "set (map fst ?xs) = set (map (keyText 1) ?rows)" by (simp add: set_foldl_pushNew)
    with setq have sub: "set (map fst ?xs) \<subseteq> set q" by auto
    from sort_by_position [OF dx sub dq] sd
    have f: "map fst (snd d) = filter (\<lambda>k. k \<in> set (map fst ?xs)) q" by simp
    from groupOf_series [OF nested_leafOk [OF all d] dq f]
    have "map dim2 (pointsOf (groupOf g q d)) = filter (\<lambda>k. k \<in> set (map fst ?xs)) q"
      using f by simp
    also have "\<dots> = filter (\<lambda>k. \<exists>r\<in>set (inDataOf g). keyText 0 r = fst d \<and> keyText 1 r = k) q"
      unfolding sx by (rule filter_cong) auto
    finally show ?thesis by simp
  qed
  with i show ?thesis by (simp add: shaped_def)
qed

text \<open>
  C2, at the rows with a missing series (Q1: East 100, West 50; Q2: West 70).  The
  canonical series order is East, West and East has no row in the group Q2.  The claim
  puts a placeholder point (value 0, text \<open>-\<close>, empty element id) for East at position 0
  of the values of Q2.  \<open>initData\<close> returns a group Q2 whose values hold the single point
  West 70: the placeholder is missing, and West sits at position 0.
\<close>

theorem initData_placeholder_dropped:
  "twoDimInput chartMissing
   \<and> map_option (map_sum id (\<lambda>g. (allDim2 g,
          map (\<lambda>d. (dim1 d, map (\<lambda>e. (dim2 e, p_qNum e, p_qText e)) (pointsOf d))) (data g))))
        (initData chartMissing)
       = Some (Inr ([''East'', ''West''],
                    [(''Q1'', [(''East'', Fin 100, ''100''), (''West'', Fin 50, ''50'')]),
                     (''Q2'', [(''West'', Fin 70, ''70'')])]))"
  by code_simp

section \<open>Normalization\<close>

lemma inDataOf_normalized [simp]: "inDataOf (g \<lparr> normalized := b \<rparr>) = inDataOf g"
  by (simp add: inDataOf_def measureCell_def)

lemma twoDimInput_normalized [simp]: "twoDimInput (g \<lparr> normalized := b \<rparr>) = twoDimInput g"
  by (simp add: twoDimInput_def)












end
